theory Spec2Isabelle
  imports Complex_Main "HOL-Library.Multiset" "HOL-Library.Word"
begin

section \<open>Pointers, comparison results and failures\<close>

text \<open>
  The heap of \<^verbatim>\<open>heap.c\<close> stores \<^verbatim>\<open>void *\<close> handles. A handle is modelled
  as an option: \<open>None\<close> is the C \<^verbatim>\<open>NULL\<close>, \<open>Some a\<close> is a pointer to the object
  \<open>a\<close>. The objects are never written through the pointers by the code
  under study, so a pointer is identified with what it points to.

  \<^verbatim>\<open>enum comparator_val { LESS_THAN, GREATER_THAN, EQUAL_TO }\<close> of \<^verbatim>\<open>heap.h\<close>
  is a datatype.

  \<^verbatim>\<open>unsigned int size, capacity\<close> and the \<^verbatim>\<open>int\<close> indices are natural
  numbers. The C arithmetic agrees with them as long as a heap holds fewer than
  \<open>2 ^ 30\<close> elements (then \<open>2 * index + 2\<close> fits an \<^verbatim>\<open>int\<close> and
  \<open>2 * capacity\<close> an \<^verbatim>\<open>unsigned int\<close>); allocation is taken to succeed, as
  the source does after its own assertions.
\<close>

type_synonym 'a ptr = "'a option"

datatype comparator_val = LESS_THAN | GREATER_THAN | EQUAL_TO

type_synonym comparison_t = comparator_val

datatype error = AssertionFailure | NullDereference | ConversionOutOfRange

section \<open>The binary heap (heap.c)\<close>

text \<open>
  \<^verbatim>\<open>struct binary_heap\<close>: the array \<^verbatim>\<open>elems\<close> (a list whose length is the
  allocated capacity; slots that C leaves uninitialised hold \<open>None\<close>), the
  \<^verbatim>\<open>size\<close> (field \<open>size_h\<close>, since \<open>size\<close> is a constant of HOL), the
  \<^verbatim>\<open>capacity\<close> and the \<^verbatim>\<open>comparator\<close>. \<^verbatim>\<open>heap.c\<close> calls the comparator
  with two arguments, and so does the model. The destructor \<^verbatim>\<open>free_elem\<close> only
  releases memory and is left out.
\<close>

record 'a binary_heap =
  elems :: "'a ptr list"
  size_h :: nat
  capacity :: nat
  comparator :: "'a ptr \<Rightarrow> 'a ptr \<Rightarrow> comparison_t"

definition DEFAULT_ARR_CAPACITY :: nat where
  "DEFAULT_ARR_CAPACITY = 16"

definition create_empty_heap :: "('a ptr \<Rightarrow> 'a ptr \<Rightarrow> comparison_t) \<Rightarrow> 'a binary_heap" where
  "create_empty_heap cmp =
     \<lparr>elems = replicate DEFAULT_ARR_CAPACITY None, size_h = 0,
      capacity = DEFAULT_ARR_CAPACITY, comparator = cmp\<rparr>"

definition binary_heap_size :: "'a binary_heap \<Rightarrow> nat" where
  "binary_heap_size heap = size_h heap"

text \<open>
  The index helpers. \<^verbatim>\<open>(index - 1) / 2\<close> is C's truncating division on
  \<^verbatim>\<open>int\<close>: at index 0 it is \<open>(-1) / 2 = 0\<close>, which is also what the
  truncating subtraction of \<open>nat\<close> gives.
\<close>

definition binary_heap_get_parent_index :: "nat \<Rightarrow> nat" where
  "binary_heap_get_parent_index index = (index - 1) div 2"

definition binary_heap_get_left_child_index :: "nat \<Rightarrow> nat" where
  "binary_heap_get_left_child_index index = 2 * index + 1"

definition binary_heap_get_right_child_index :: "nat \<Rightarrow> nat" where
  "binary_heap_get_right_child_index index = 2 * index + 2"

text \<open>
  The \<^verbatim>\<open>while\<close> loop of \<^verbatim>\<open>binary_heap_bubble_last_element\<close>: while the
  element is not the root and compares \<^verbatim>\<open>LESS_THAN\<close> to its parent, the two
  are swapped (through \<^verbatim>\<open>temp\<close>) and the walk goes on from the parent. The
  assertion \<^verbatim>\<open>elem_index == 0 || parent_index != -1\<close> cannot fail: the parent
  index of a non-negative index is not negative.
\<close>

function bubble_loop ::
  "('a ptr \<Rightarrow> 'a ptr \<Rightarrow> comparison_t) \<Rightarrow> 'a ptr list \<Rightarrow> nat \<Rightarrow> 'a ptr list" where
  "bubble_loop cmp es elem_index =
     (let parent_index = binary_heap_get_parent_index elem_index in
      if elem_index \<noteq> 0 \<and> cmp (es ! elem_index) (es ! parent_index) = LESS_THAN
      then bubble_loop cmp
             (es[elem_index := es ! parent_index, parent_index := es ! elem_index])
             parent_index
      else es)"
  by pat_completeness auto
termination
  by (relation "measure (\<lambda>(cmp, es, i). i)")
     (auto simp: binary_heap_get_parent_index_def)

declare bubble_loop.simps [simp del]

definition binary_heap_bubble_last_element :: "'a binary_heap \<Rightarrow> 'a binary_heap" where
  "binary_heap_bubble_last_element heap =
     heap\<lparr>elems := bubble_loop (comparator heap) (elems heap) (size_h heap - 1)\<rparr>"

text \<open>
  \<^verbatim>\<open>binary_heap_insert\<close>: the assertion \<^verbatim>\<open>size <= capacity\<close>, the doubling of
  a full array (\<^verbatim>\<open>realloc\<close> keeps the old contents), the store at index
  \<^verbatim>\<open>size\<close>, the increment and the bubbling. The C function returns the
  constant 1; the model returns the heap.
\<close>

definition binary_heap_insert :: "'a binary_heap \<Rightarrow> 'a ptr \<Rightarrow> error + 'a binary_heap" where
  "binary_heap_insert heap elem =
     (if \<not> size_h heap \<le> capacity heap then Inl AssertionFailure
      else
        let heap1 =
              (if size_h heap = capacity heap
               then heap\<lparr>capacity := 2 * capacity heap,
                         elems := elems heap @ replicate (2 * capacity heap - length (elems heap)) None\<rparr>
               else heap);
            heap2 = heap1\<lparr>elems := (elems heap1)[size_h heap1 := elem],
                           size_h := size_h heap1 + 1\<rparr>
        in Inr (binary_heap_bubble_last_element heap2))"

definition binary_heap_min :: "'a binary_heap \<Rightarrow> 'a ptr" where
  "binary_heap_min heap = (if size_h heap = 0 then None else elems heap ! 0)"

text \<open>
  One iteration of the sift-down loop of \<^verbatim>\<open>binary_heap_pop_min\<close>, up to the
  two flags \<^verbatim>\<open>swap_left\<close> and \<^verbatim>\<open>swap_right\<close>. \<open>n\<close> is the size after the
  decrement. \<^verbatim>\<open>left_compare\<close> and \<^verbatim>\<open>right_compare\<close> are assigned only when
  the child is present, hence options.
\<close>

definition pop_min_swap_flags ::
  "('a ptr \<Rightarrow> 'a ptr \<Rightarrow> comparison_t) \<Rightarrow> nat \<Rightarrow> 'a ptr list \<Rightarrow> nat \<Rightarrow> bool \<times> bool" where
  "pop_min_swap_flags cmp n es index =
     (let left_index = binary_heap_get_left_child_index index;
          right_index = binary_heap_get_right_child_index index;
          left_present = left_index < n;
          right_present = right_index < n;
          left_compare =
            (if left_present then Some (cmp (es ! index) (es ! left_index)) else None);
          right_compare =
            (if right_present then Some (cmp (es ! index) (es ! right_index)) else None)
      in
        if left_present \<and> right_present then
          (if left_compare = Some GREATER_THAN \<and> right_compare = Some GREATER_THAN then
             (let child_compare = cmp (es ! left_index) (es ! right_index) in
              if child_compare = LESS_THAN \<or> child_compare = EQUAL_TO
              then (True, False) else (False, True))
           else if left_compare = Some GREATER_THAN then (True, False)
           else if right_compare = Some GREATER_THAN then (False, True)
           else (False, False))
        else if left_present \<and> left_compare = Some GREATER_THAN then (True, False)
        else if right_present \<and> right_compare = Some GREATER_THAN then (False, True)
        else (False, False))"

text \<open>
  The sift-down loop itself: it runs while a child index is below the size and
  \<^verbatim>\<open>smaller_than_children\<close> is still set; clearing that flag ends the loop,
  which the model writes as returning the array.
\<close>

function pop_min_loop ::
  "('a ptr \<Rightarrow> 'a ptr \<Rightarrow> comparison_t) \<Rightarrow> nat \<Rightarrow> 'a ptr list \<Rightarrow> nat \<Rightarrow> 'a ptr list" where
  "pop_min_loop cmp n es index =
     (let left_index = binary_heap_get_left_child_index index;
          right_index = binary_heap_get_right_child_index index
      in
        if left_index < n \<or> right_index < n then
          (let flags = pop_min_swap_flags cmp n es index in
           if fst flags
           then pop_min_loop cmp n (es[index := es ! left_index, left_index := es ! index])
                  left_index
           else if snd flags
           then pop_min_loop cmp n (es[index := es ! right_index, right_index := es ! index])
                  right_index
           else es)
        else es)"
  by pat_completeness auto
termination
  by (relation "measure (\<lambda>(cmp, n, es, i). n - i)")
     (auto simp: pop_min_swap_flags_def Let_def binary_heap_get_left_child_index_def
        binary_heap_get_right_child_index_def split: if_splits)

declare pop_min_loop.simps [simp del]

text \<open>
  \<^verbatim>\<open>binary_heap_pop_min\<close>: \<^verbatim>\<open>NULL\<close> when \<^verbatim>\<open>binary_heap_min\<close> is \<^verbatim>\<open>NULL\<close>
  (the heap is then untouched); otherwise the last element moves to the root,
  its old slot is cleared, the size drops by one and the root sifts down. The
  result is the pair of the returned pointer and the heap afterwards.
\<close>

definition binary_heap_pop_min :: "'a binary_heap \<Rightarrow> 'a ptr \<times> 'a binary_heap" where
  "binary_heap_pop_min heap =
     (let min_val = binary_heap_min heap in
      if min_val = None then (None, heap)
      else
        let es1 = (elems heap)[0 := elems heap ! (size_h heap - 1)];
            es2 = es1[size_h heap - 1 := None];
            n = size_h heap - 1
        in (min_val, heap\<lparr>elems := pop_min_loop (comparator heap) n es2 0, size_h := n\<rparr>))"

section \<open>Call sequences\<close>

text \<open>
  A client of the heap calls \<^verbatim>\<open>binary_heap_insert\<close> and
  \<^verbatim>\<open>binary_heap_pop_min\<close> in some order. \<open>run_calls\<close> runs such a sequence
  and returns the pointers the pops returned, in order, with the final heap; a
  failed assertion ends the run. \<open>inserted\<close> lists the pointers a sequence
  inserts.
\<close>

datatype 'a heap_call = Call_insert "'a ptr" | Call_pop_min

fun run_calls ::
  "'a binary_heap \<Rightarrow> 'a heap_call list \<Rightarrow> error + ('a ptr list \<times> 'a binary_heap)" where
  "run_calls heap [] = Inr ([], heap)"
| "run_calls heap (Call_insert elem # calls) =
     (case binary_heap_insert heap elem of
        Inl e \<Rightarrow> Inl e
      | Inr heap' \<Rightarrow> run_calls heap' calls)"
| "run_calls heap (Call_pop_min # calls) =
     (case binary_heap_pop_min heap of
        (r, heap') \<Rightarrow>
          (case run_calls heap' calls of
             Inl e \<Rightarrow> Inl e
           | Inr (rs, heap'') \<Rightarrow> Inr (r # rs, heap'')))"

fun inserted :: "'a heap_call list \<Rightarrow> 'a ptr list" where
  "inserted [] = []"
| "inserted (Call_insert elem # calls) = elem # inserted calls"
| "inserted (Call_pop_min # calls) = inserted calls"

text \<open>Inserting a list of pointers one after the other, first element first.\<close>

fun insert_all :: "'a binary_heap \<Rightarrow> 'a ptr list \<Rightarrow> error + 'a binary_heap" where
  "insert_all heap [] = Inr heap"
| "insert_all heap (elem # rest) =
     (case binary_heap_insert heap elem of
        Inl e \<Rightarrow> Inl e
      | Inr heap' \<Rightarrow> insert_all heap' rest)"

text \<open>Popping \<open>k\<close> times: the returned pointers in order, and the heap afterwards.\<close>

fun pop_times :: "nat \<Rightarrow> 'a binary_heap \<Rightarrow> 'a ptr list \<times> 'a binary_heap" where
  "pop_times 0 heap = ([], heap)"
| "pop_times (Suc k) heap =
     (case binary_heap_pop_min heap of
        (r, heap') \<Rightarrow> (case pop_times k heap' of (rs, heap'') \<Rightarrow> (r # rs, heap'')))"

text \<open>
  What \<^verbatim>\<open>binary_heap_min\<close> returns after each insert of a list, as the heap
  tests read it.
\<close>

definition peeks_after_inserts :: "'a binary_heap \<Rightarrow> 'a ptr list \<Rightarrow> 'a ptr list" where
  "peeks_after_inserts heap0 xs =
     map (\<lambda>k. case insert_all heap0 (take k xs) of
                Inl e \<Rightarrow> None
              | Inr heap' \<Rightarrow> binary_heap_min heap')
       [1 ..< Suc (length xs)]"

text \<open>
  The client loop \<^verbatim>\<open>while (binary_heap_size(heap) != 0) binary_heap_pop_min(heap)\<close>.
  Nothing in the loop itself bounds it (a pop that returns \<^verbatim>\<open>NULL\<close> leaves
  the size as it was), so it is a partial function: \<open>None\<close> stands for a
  loop that never ends.
\<close>

partial_function (option) pop_until_empty :: "'a binary_heap \<Rightarrow> 'a ptr list option" where
  "pop_until_empty heap =
     (if binary_heap_size heap = 0 then Some []
      else
        (case binary_heap_pop_min heap of
           (r, heap') \<Rightarrow> Option.bind (pop_until_empty heap') (\<lambda>rs. Some (r # rs))))"

declare pop_until_empty.simps [code]

section \<open>Comparators and invariants\<close>

text \<open>
  What the interface asks of a comparator, on a set \<open>S\<close> of handles: it is a
  three-way comparison of a total preorder (\<^verbatim>\<open>LESS_THAN\<close> one way is
  \<^verbatim>\<open>GREATER_THAN\<close> the other way, and "not greater" is transitive). It is a
  total order when, in addition, only identical handles compare
  \<^verbatim>\<open>EQUAL_TO\<close>.
\<close>

definition comparator_total_preorder_on ::
  "'a ptr set \<Rightarrow> ('a ptr \<Rightarrow> 'a ptr \<Rightarrow> comparison_t) \<Rightarrow> bool" where
  "comparator_total_preorder_on S cmp \<longleftrightarrow>
     (\<forall>a\<in>S. \<forall>b\<in>S. (cmp a b = LESS_THAN) = (cmp b a = GREATER_THAN)) \<and>
     (\<forall>a\<in>S. \<forall>b\<in>S. \<forall>c\<in>S.
        cmp a b \<noteq> GREATER_THAN \<longrightarrow> cmp b c \<noteq> GREATER_THAN \<longrightarrow> cmp a c \<noteq> GREATER_THAN)"

definition comparator_total_order_on ::
  "'a ptr set \<Rightarrow> ('a ptr \<Rightarrow> 'a ptr \<Rightarrow> comparison_t) \<Rightarrow> bool" where
  "comparator_total_order_on S cmp \<longleftrightarrow>
     comparator_total_preorder_on S cmp \<and>
     (\<forall>a\<in>S. \<forall>b\<in>S. cmp a b = EQUAL_TO \<longrightarrow> a = b)"

text \<open>
  The heap property needs less of a comparator than the ordering of the pops
  does: \<^verbatim>\<open>LESS_THAN\<close> one way is \<^verbatim>\<open>GREATER_THAN\<close> the other way, and
  "not greater" is transitive through every handle that is strictly above some
  handle. Every three-way comparison of a total preorder is of this kind, and so
  is the comparison of \<^verbatim>\<open>double\<close> times, whose NaN compares \<^verbatim>\<open>EQUAL_TO\<close> to
  everything and is strictly above nothing.
\<close>

definition comparator_heap_order_on ::
  "'a ptr set \<Rightarrow> ('a ptr \<Rightarrow> 'a ptr \<Rightarrow> comparison_t) \<Rightarrow> bool" where
  "comparator_heap_order_on S cmp \<longleftrightarrow>
     (\<forall>a\<in>S. \<forall>b\<in>S. (cmp a b = LESS_THAN) = (cmp b a = GREATER_THAN)) \<and>
     (\<forall>a\<in>S. \<forall>b\<in>S. \<forall>c\<in>S. \<forall>d\<in>S.
        cmp d b = LESS_THAN \<longrightarrow> cmp a b \<noteq> GREATER_THAN \<longrightarrow> cmp b c \<noteq> GREATER_THAN \<longrightarrow>
        cmp a c \<noteq> GREATER_THAN)"

text \<open>The heap property of the first \<open>n\<close> slots of an array.\<close>

definition heap_ok ::
  "('a ptr \<Rightarrow> 'a ptr \<Rightarrow> comparison_t) \<Rightarrow> nat \<Rightarrow> 'a ptr list \<Rightarrow> bool" where
  "heap_ok cmp n es \<longleftrightarrow>
     (\<forall>i. 0 < i \<and> i < n \<longrightarrow>
        cmp (es ! binary_heap_get_parent_index i) (es ! i) \<noteq> GREATER_THAN)"

text \<open>
  The shape every heap built by the interface has (the array is as long as the
  capacity and holds the size), the multiset of the handles a heap holds, and
  the invariant the proofs carry.
\<close>

definition heap_shape :: "'a binary_heap \<Rightarrow> bool" where
  "heap_shape heap \<longleftrightarrow>
     size_h heap \<le> capacity heap \<and> length (elems heap) = capacity heap \<and> 0 < capacity heap"

definition heap_contents :: "'a binary_heap \<Rightarrow> 'a ptr multiset" where
  "heap_contents heap = mset (take (size_h heap) (elems heap))"

definition heap_inv ::
  "'a ptr set \<Rightarrow> ('a ptr \<Rightarrow> 'a ptr \<Rightarrow> comparison_t) \<Rightarrow> 'a binary_heap \<Rightarrow> bool" where
  "heap_inv S cmp heap \<longleftrightarrow>
     heap_shape heap \<and> comparator heap = cmp \<and> set_mset (heap_contents heap) \<subseteq> S \<and>
     heap_ok cmp (size_h heap) (elems heap)"

text \<open>
  The array of \<^verbatim>\<open>binary_heap_insert\<close> just before the bubbling, and the array
  of \<^verbatim>\<open>binary_heap_pop_min\<close> just before the sift-down.
\<close>

definition insert_array :: "'a binary_heap \<Rightarrow> 'a ptr \<Rightarrow> 'a ptr list" where
  "insert_array heap elem =
     ((if size_h heap = capacity heap
       then elems heap @ replicate (2 * capacity heap - length (elems heap)) None
       else elems heap)[size_h heap := elem])"

definition pop_array :: "'a binary_heap \<Rightarrow> 'a ptr list" where
  "pop_array heap =
     (elems heap)[0 := elems heap ! (size_h heap - 1), size_h heap - 1 := None]"

section \<open>The comparator of the heap tests (heap_test.c)\<close>

text \<open>
  \<^verbatim>\<open>struct node { int value; }\<close> and the \<^verbatim>\<open>comparator\<close> of
  \<^verbatim>\<open>heap_test.c\<close>, which reads the two nodes and ignores its third argument.
\<close>

record node =
  node_value :: int

definition node_comparator :: "node ptr \<Rightarrow> node ptr \<Rightarrow> unit ptr \<Rightarrow> comparison_t" where
  "node_comparator lhs rhs arg =
     (let node_l = the lhs; node_r = the rhs in
      if node_value node_l < node_value node_r then LESS_THAN
      else if node_value node_l > node_value node_r then GREATER_THAN
      else EQUAL_TO)"

definition make_node :: "int \<Rightarrow> node ptr" where
  "make_node v = Some \<lparr>node_value = v\<rparr>"

section \<open>C numbers used as times\<close>

text \<open>
  \<^verbatim>\<open>unsigned int\<close> times are 32-bit words. A C \<^verbatim>\<open>double\<close> is a finite real, an
  infinity or a NaN; only the comparisons and the conversions that
  \<^verbatim>\<open>event_queue.c\<close> applies are modelled, as the C standard defines them:
  \<^verbatim>\<open><\<close> and \<^verbatim>\<open>>\<close> are false when an operand is a NaN; converting a double to
  \<^verbatim>\<open>unsigned int\<close> drops the fraction and is undefined (\<open>None\<close>) unless the
  truncated value fits; converting an \<^verbatim>\<open>unsigned int\<close> to double is exact.
\<close>

datatype double = Finite real | PlusInfinity | MinusInfinity | NaN

fun double_less :: "double \<Rightarrow> double \<Rightarrow> bool" where
  "double_less NaN y = False"
| "double_less x NaN = False"
| "double_less (Finite a) (Finite b) = (a < b)"
| "double_less (Finite a) PlusInfinity = True"
| "double_less (Finite a) MinusInfinity = False"
| "double_less PlusInfinity y = False"
| "double_less MinusInfinity (Finite b) = True"
| "double_less MinusInfinity PlusInfinity = True"
| "double_less MinusInfinity MinusInfinity = False"

definition double_greater :: "double \<Rightarrow> double \<Rightarrow> bool" where
  "double_greater x y = double_less y x"

fun double_to_unsigned_int :: "double \<Rightarrow> 32 word option" where
  "double_to_unsigned_int (Finite a) =
     (if - 1 < a \<and> a < 2 ^ 32 then Some (word_of_int (if a < 0 then 0 else \<lfloor>a\<rfloor>)) else None)"
| "double_to_unsigned_int PlusInfinity = None"
| "double_to_unsigned_int MinusInfinity = None"
| "double_to_unsigned_int NaN = None"

definition unsigned_int_to_double :: "32 word \<Rightarrow> double" where
  "unsigned_int_to_double w = Finite (real (unat w))"

section \<open>The event queue (event_queue.c)\<close>

text \<open>
  \<^verbatim>\<open>struct event\<close> pairs a payload pointer with a time pointer.
  \<^verbatim>\<open>struct uint_time\<close> and \<^verbatim>\<open>struct double_time\<close> box a number (their field
  \<^verbatim>\<open>time\<close> is named \<open>time_uint\<close> and \<open>time_double\<close> here).
\<close>

record ('d, 't) event =
  data :: "'d ptr"
  time :: "'t ptr"

record uint_time =
  time_uint :: "32 word"

record double_time =
  time_double :: double

text \<open>
  \<^verbatim>\<open>struct event_queue\<close>: the heap and the time comparator, a
  \<^verbatim>\<open>func_comparator_t\<close> with its three parameters. The destructors and their
  arguments only release memory and are left out.
\<close>

record ('d, 't) event_queue =
  heap :: "('d, 't) event binary_heap"
  time_comparator :: "'t ptr \<Rightarrow> 't ptr \<Rightarrow> unit ptr \<Rightarrow> comparison_t"

text \<open>
  \<^verbatim>\<open>event_comparator\<close> casts its three pointers and returns
  \<^verbatim>\<open>queue->time_comparator(event_l->time, event_r->time, NULL)\<close>, where \<^verbatim>\<open>queue\<close>
  is its third parameter \<^verbatim>\<open>queue_ptr\<close>.
\<close>

definition event_comparator ::
  "('d, 't) event ptr \<Rightarrow> ('d, 't) event ptr \<Rightarrow> ('d, 't) event_queue ptr \<Rightarrow> comparison_t" where
  "event_comparator lhs rhs queue_ptr =
     (let queue = the queue_ptr; event_l = the lhs; event_r = the rhs in
      time_comparator queue (time event_l) (time event_r) None)"

text \<open>
  \<^verbatim>\<open>create_generic_event_queue\<close> stores the time comparator and creates the heap
  with \<^verbatim>\<open>event_comparator\<close>. It then calls
  \<^verbatim>\<open>binary_heap_set_comparator_arg(queue->heap, queue)\<close>, which \<^verbatim>\<open>heap.h\<close>
  declares and \<^verbatim>\<open>heap.c\<close> does not define; \<^verbatim>\<open>struct binary_heap\<close> has no field
  for such an argument, and \<^verbatim>\<open>binary_heap_bubble_last_element\<close> and
  \<^verbatim>\<open>binary_heap_pop_min\<close> call \<^verbatim>\<open>heap->comparator(a, b)\<close> with two arguments. No
  call hands the queue to \<^verbatim>\<open>event_comparator\<close>: what its third parameter holds
  when the heap calls it is not set by the code. That value is the parameter
  \<open>third_arg\<close> here, and nothing is assumed about it.
\<close>

definition create_generic_event_queue ::
  "('t ptr \<Rightarrow> 't ptr \<Rightarrow> unit ptr \<Rightarrow> comparison_t) \<Rightarrow> ('d, 't) event_queue ptr \<Rightarrow>
     ('d, 't) event_queue" where
  "create_generic_event_queue time_cmp third_arg =
     \<lparr>heap = create_empty_heap (\<lambda>lhs rhs. event_comparator lhs rhs third_arg),
      time_comparator = time_cmp\<rparr>"



definition create_double_time :: "double \<Rightarrow> double_time ptr" where
  "create_double_time time_val = Some \<lparr>time_double = time_val\<rparr>"

definition double_time_comparator ::
  "double_time ptr \<Rightarrow> double_time ptr \<Rightarrow> unit ptr \<Rightarrow> comparison_t" where
  "double_time_comparator lhs rhs arg =
     (let time_l = the lhs; time_r = the rhs in
      if double_less (time_double time_l) (time_double time_r) then LESS_THAN
      else if double_greater (time_double time_l) (time_double time_r) then GREATER_THAN
      else EQUAL_TO)"


definition create_queue_double_time ::
  "('d, double_time) event_queue ptr \<Rightarrow> ('d, double_time) event_queue" where
  "create_queue_double_time third_arg =
     create_generic_event_queue double_time_comparator third_arg"

text \<open>
  \<^verbatim>\<open>event_queue_enqueue\<close> asserts that the time pointer is not \<^verbatim>\<open>NULL\<close>, wraps
  payload and time into a new event and inserts it into the heap.
\<close>

definition event_queue_enqueue ::
  "('d, 't) event_queue \<Rightarrow> 'd ptr \<Rightarrow> 't ptr \<Rightarrow> error + ('d, 't) event_queue" where
  "event_queue_enqueue queue elem time_ptr =
     (if time_ptr = None then Inl AssertionFailure
      else
        (case binary_heap_insert (heap queue) (Some \<lparr>data = elem, time = time_ptr\<rparr>) of
           Inl e \<Rightarrow> Inl e
         | Inr heap' \<Rightarrow> Inr (queue\<lparr>heap := heap'\<rparr>)))"


definition event_queue_enqueue_double_time ::
  "('d, double_time) event_queue \<Rightarrow> 'd ptr \<Rightarrow> double \<Rightarrow> error + ('d, double_time) event_queue" where
  "event_queue_enqueue_double_time queue elem time_val =
     event_queue_enqueue queue elem (create_double_time time_val)"

definition event_queue_size :: "('d, 't) event_queue \<Rightarrow> nat" where
  "event_queue_size queue = binary_heap_size (heap queue)"


definition event_queue_dequeue ::
  "('d, 't) event_queue \<Rightarrow> error + (('d ptr \<times> 't ptr) \<times> ('d, 't) event_queue)" where
  "event_queue_dequeue queue =
     (case binary_heap_pop_min (heap queue) of
        (None, heap') \<Rightarrow> Inl NullDereference
      | (Some event_popped, heap') \<Rightarrow>
          Inr ((data event_popped, time event_popped), queue\<lparr>heap := heap'\<rparr>))"

text \<open>
  The typed variants return the number and the payload. Both dequeues store the
  time in a local \<^verbatim>\<open>unsigned int time_val\<close> before returning it; for
  \<^verbatim>\<open>event_queue_dequeue_double_time\<close> that is a conversion from double to
  \<^verbatim>\<open>unsigned int\<close> and back.
\<close>

definition event_queue_peek_uint_time ::
  "('d, uint_time) event_queue \<Rightarrow> error + (32 word \<times> 'd ptr)" where
  "event_queue_peek_uint_time queue =
     (case binary_heap_min (heap queue) of
        None \<Rightarrow> Inl NullDereference
      | Some event \<Rightarrow>
          (case time event of
             None \<Rightarrow> Inl NullDereference
           | Some t \<Rightarrow> Inr (time_uint t, data event)))"

definition event_queue_peek_double_time ::
  "('d, double_time) event_queue \<Rightarrow> error + (double \<times> 'd ptr)" where
  "event_queue_peek_double_time queue =
     (case binary_heap_min (heap queue) of
        None \<Rightarrow> Inl NullDereference
      | Some event \<Rightarrow>
          (case time event of
             None \<Rightarrow> Inl NullDereference
           | Some t \<Rightarrow> Inr (time_double t, data event)))"

definition event_queue_dequeue_uint_time ::
  "('d, uint_time) event_queue \<Rightarrow> error + (32 word \<times> 'd ptr \<times> ('d, uint_time) event_queue)" where
  "event_queue_dequeue_uint_time queue =
     (case event_queue_dequeue queue of
        Inl e \<Rightarrow> Inl e
      | Inr ((elem_out, time_ptr), queue') \<Rightarrow>
          (case time_ptr of
             None \<Rightarrow> Inl NullDereference
           | Some t \<Rightarrow> (let time_val = time_uint t in Inr (time_val, elem_out, queue'))))"

definition event_queue_dequeue_double_time ::
  "('d, double_time) event_queue \<Rightarrow>
     error + (double \<times> 'd ptr \<times> ('d, double_time) event_queue)" where
  "event_queue_dequeue_double_time queue =
     (case event_queue_dequeue queue of
        Inl e \<Rightarrow> Inl e
      | Inr ((elem_out, time_ptr), queue') \<Rightarrow>
          (case time_ptr of
             None \<Rightarrow> Inl NullDereference
           | Some t \<Rightarrow>
               (case double_to_unsigned_int (time_double t) of
                  None \<Rightarrow> Inl ConversionOutOfRange
                | Some time_val \<Rightarrow> Inr (unsigned_int_to_double time_val, elem_out, queue'))))"


section \<open>Lemmas\<close>

subsection \<open>Indices, comparators, swaps\<close>

lemma pop_min_swap_flags_left:
  "fst (pop_min_swap_flags cmp n es index) \<Longrightarrow> 2 * index + 1 < n"
  by (auto simp: pop_min_swap_flags_def Let_def binary_heap_get_left_child_index_def
      split: if_splits)

lemma pop_min_swap_flags_right:
  "snd (pop_min_swap_flags cmp n es index) \<Longrightarrow> 2 * index + 2 < n"
  by (auto simp: pop_min_swap_flags_def Let_def binary_heap_get_right_child_index_def
      split: if_splits)

lemma parent_less: "0 < i \<Longrightarrow> binary_heap_get_parent_index i < i"
  by (simp add: binary_heap_get_parent_index_def)

lemma parent_eq_iff:
  "0 < i \<Longrightarrow> binary_heap_get_parent_index i = k \<longleftrightarrow> i = 2 * k + 1 \<or> i = 2 * k + 2"
  by (simp add: binary_heap_get_parent_index_def) arith

lemma preorder_trans:
  "comparator_total_preorder_on S cmp \<Longrightarrow> a \<in> S \<Longrightarrow> b \<in> S \<Longrightarrow> c \<in> S \<Longrightarrow>
   cmp a b \<noteq> GREATER_THAN \<Longrightarrow> cmp b c \<noteq> GREATER_THAN \<Longrightarrow> cmp a c \<noteq> GREATER_THAN"
  unfolding comparator_total_preorder_on_def by blast


lemma preorder_not_less_le:
  "comparator_total_preorder_on S cmp \<Longrightarrow> a \<in> S \<Longrightarrow> b \<in> S \<Longrightarrow>
   cmp a b \<noteq> LESS_THAN \<Longrightarrow> cmp b a \<noteq> GREATER_THAN"
  unfolding comparator_total_preorder_on_def by blast

lemma preorder_refl:
  "comparator_total_preorder_on S cmp \<Longrightarrow> a \<in> S \<Longrightarrow> cmp a a \<noteq> GREATER_THAN"
  unfolding comparator_total_preorder_on_def by (metis comparator_val.distinct(1))

lemma total_preorder_heap_order:
  "comparator_total_preorder_on S cmp \<Longrightarrow> comparator_heap_order_on S cmp"
  unfolding comparator_total_preorder_on_def comparator_heap_order_on_def by blast

lemma heap_order_trans:
  "comparator_heap_order_on S cmp \<Longrightarrow> a \<in> S \<Longrightarrow> b \<in> S \<Longrightarrow> c \<in> S \<Longrightarrow> d \<in> S \<Longrightarrow>
   cmp d b = LESS_THAN \<Longrightarrow> cmp a b \<noteq> GREATER_THAN \<Longrightarrow> cmp b c \<noteq> GREATER_THAN \<Longrightarrow>
   cmp a c \<noteq> GREATER_THAN"
  unfolding comparator_heap_order_on_def by blast

lemma heap_order_greater_less:
  "comparator_heap_order_on S cmp \<Longrightarrow> a \<in> S \<Longrightarrow> b \<in> S \<Longrightarrow>
   cmp a b = GREATER_THAN \<Longrightarrow> cmp b a = LESS_THAN"
  unfolding comparator_heap_order_on_def by blast

lemma heap_order_greater_le:
  "comparator_heap_order_on S cmp \<Longrightarrow> a \<in> S \<Longrightarrow> b \<in> S \<Longrightarrow>
   cmp a b = GREATER_THAN \<Longrightarrow> cmp b a \<noteq> GREATER_THAN"
  unfolding comparator_heap_order_on_def by (metis comparator_val.distinct(1))

lemma heap_order_not_less_le:
  "comparator_heap_order_on S cmp \<Longrightarrow> a \<in> S \<Longrightarrow> b \<in> S \<Longrightarrow>
   cmp a b \<noteq> LESS_THAN \<Longrightarrow> cmp b a \<noteq> GREATER_THAN"
  unfolding comparator_heap_order_on_def by blast

lemma heap_order_refl:
  "comparator_heap_order_on S cmp \<Longrightarrow> a \<in> S \<Longrightarrow> cmp a a \<noteq> GREATER_THAN"
  unfolding comparator_heap_order_on_def by (metis comparator_val.distinct(1))

lemma take_swap_mset:
  "i < n \<Longrightarrow> j < n \<Longrightarrow> n \<le> length es \<Longrightarrow>
   mset (take n (es[i := es ! j, j := es ! i])) = mset (take n es)"
  using mset_swap [of j "take n es" i] by (simp add: take_update_swap)

subsection \<open>The bubbling loop keeps the elements and restores the heap property\<close>

lemma bubble_loop_length: "length (bubble_loop cmp es k) = length es"
proof (induction cmp es k rule: bubble_loop.induct)
  case (1 cmp es k)
  show ?case
    using 1 by (subst bubble_loop.simps) (simp add: Let_def)
qed

lemma bubble_loop_mset:
  "k < n \<Longrightarrow> n \<le> length es \<Longrightarrow> mset (take n (bubble_loop cmp es k)) = mset (take n es)"
proof (induction cmp es k rule: bubble_loop.induct)
  case (1 cmp es k)
  let ?p = "binary_heap_get_parent_index k"
  show ?case
  proof (cases "k \<noteq> 0 \<and> cmp (es ! k) (es ! ?p) = LESS_THAN")
    case True
    then have p: "?p < k" using parent_less by simp
    have "mset (take n (bubble_loop cmp (es[k := es ! ?p, ?p := es ! k]) ?p))
        = mset (take n (es[k := es ! ?p, ?p := es ! k]))"
      using 1 True p by simp
    also have "\<dots> = mset (take n es)"
      using take_swap_mset [of k n ?p es] p 1 by simp
    finally show ?thesis
      using True by (subst bubble_loop.simps) (simp add: Let_def)
  next
    case False
    then show ?thesis by (subst bubble_loop.simps) (auto simp add: Let_def)
  qed
qed

lemma nth_in_S:
  "i < n \<Longrightarrow> n \<le> length es \<Longrightarrow> set (take n es) \<subseteq> S \<Longrightarrow> es ! i \<in> S"
  by (metis in_set_conv_nth length_take min.absorb2 nth_take subsetD)

lemma take_swap_set:
  "i < n \<Longrightarrow> j < n \<Longrightarrow> n \<le> length es \<Longrightarrow>
   set (take n (es[i := es ! j, j := es ! i])) = set (take n es)"
  using take_swap_mset [of i n j es] by (metis mset_eq_setD)

lemma bubble_step_others:
  assumes tot: "comparator_heap_order_on S cmp"
    and kn: "k < n" and nl: "n \<le> length es" and sub: "set (take n es) \<subseteq> S"
    and b: "\<forall>i. 0 < i \<and> i < n \<and> i \<noteq> k \<longrightarrow>
              cmp (es ! binary_heap_get_parent_index i) (es ! i) \<noteq> GREATER_THAN"
    and c: "\<forall>i. 0 < i \<and> i < n \<and> binary_heap_get_parent_index i = k \<longrightarrow>
              cmp (es ! binary_heap_get_parent_index k) (es ! i) \<noteq> GREATER_THAN"
    and k0: "k \<noteq> 0" and p: "p = binary_heap_get_parent_index k"
    and less: "cmp (es ! k) (es ! p) = LESS_THAN"
    and i: "0 < i" "i < n" "i \<noteq> p"
  shows "cmp ((es[k := es ! p, p := es ! k]) ! binary_heap_get_parent_index i)
             ((es[k := es ! p, p := es ! k]) ! i) \<noteq> GREATER_THAN"
proof -
  let ?es' = "es[k := es ! p, p := es ! k]"
  let ?q = "binary_heap_get_parent_index i"
  have pk: "p < k" using parent_less k0 p by simp
  have qi: "?q < i" using parent_less i by simp
  have kl: "k < length es" "p < length es" "i < length es" "?q < length es"
    using kn nl pk qi i by auto
  have inS: "\<And>j. j < n \<Longrightarrow> es ! j \<in> S" using nth_in_S nl sub by blast
  have lekp: "cmp (es ! k) (es ! p) \<noteq> GREATER_THAN" using less by simp
  show ?thesis
  proof (cases "i = k")
    case True
    then have "?es' ! ?q = es ! k" "?es' ! i = es ! p"
      using p pk kl by simp_all
    then show ?thesis using lekp by simp
  next
    case ik: False
    then have ei: "?es' ! i = es ! i" using i kl by simp
    show ?thesis
    proof (cases "?q = k")
      case True
      then have "?es' ! ?q = es ! p" using pk kl by simp
      moreover have "cmp (es ! p) (es ! i) \<noteq> GREATER_THAN"
        using c i True p by simp
      ultimately show ?thesis using ei by simp
    next
      case qk: False
      show ?thesis
      proof (cases "?q = p")
        case True
        then have eq: "?es' ! ?q = es ! k" using kl by simp
        have "cmp (es ! p) (es ! i) \<noteq> GREATER_THAN"
          using b i ik True by metis
        then have "cmp (es ! k) (es ! i) \<noteq> GREATER_THAN"
          using heap_order_trans [OF tot _ _ _ _ less lekp] inS kn pk i by simp
        then show ?thesis using eq ei by simp
      next
        case False
        then have "?es' ! ?q = es ! ?q" using qk kl by simp
        then show ?thesis using ei b i ik by simp
      qed
    qed
  qed
qed

lemma bubble_step_children:
  assumes tot: "comparator_heap_order_on S cmp"
    and kn: "k < n" and nl: "n \<le> length es" and sub: "set (take n es) \<subseteq> S"
    and b: "\<forall>i. 0 < i \<and> i < n \<and> i \<noteq> k \<longrightarrow>
              cmp (es ! binary_heap_get_parent_index i) (es ! i) \<noteq> GREATER_THAN"
    and k0: "k \<noteq> 0" and p: "p = binary_heap_get_parent_index k"
    and less: "cmp (es ! k) (es ! p) = LESS_THAN"
    and p0: "p \<noteq> 0"
    and i: "0 < i" "i < n" "binary_heap_get_parent_index i = p"
  shows "cmp ((es[k := es ! p, p := es ! k]) ! binary_heap_get_parent_index p)
             ((es[k := es ! p, p := es ! k]) ! i) \<noteq> GREATER_THAN"
proof -
  let ?es' = "es[k := es ! p, p := es ! k]"
  let ?g = "binary_heap_get_parent_index p"
  have pk: "p < k" using parent_less k0 p by simp
  have gp: "?g < p" using parent_less p0 by simp
  have ip: "p < i" using parent_less [of i] i by simp
  have kl: "k < length es" "p < length es" "i < length es" "?g < length es"
    using kn nl pk gp i by auto
  have inS: "\<And>j. j < n \<Longrightarrow> es ! j \<in> S" using nth_in_S nl sub by blast
  have eg: "?es' ! ?g = es ! ?g" using gp pk kl by simp
  have gpp: "cmp (es ! ?g) (es ! p) \<noteq> GREATER_THAN"
    using b p0 pk kn by simp
  show ?thesis
  proof (cases "i = k")
    case True
    then have "?es' ! i = es ! p" using pk kl by simp
    then show ?thesis using eg gpp by simp
  next
    case False
    then have ei: "?es' ! i = es ! i" using ip kl by simp
    have "cmp (es ! p) (es ! i) \<noteq> GREATER_THAN"
      using b i False by metis
    then have "cmp (es ! ?g) (es ! i) \<noteq> GREATER_THAN"
      using heap_order_trans [OF tot _ _ _ _ less gpp] inS kn pk gp i by simp
    then show ?thesis using eg ei by simp
  qed
qed

lemma bubble_loop_heap_ok:
  "comparator_heap_order_on S cmp \<Longrightarrow> k < n \<Longrightarrow> n \<le> length es \<Longrightarrow>
   set (take n es) \<subseteq> S \<Longrightarrow>
   (\<forall>i. 0 < i \<and> i < n \<and> i \<noteq> k \<longrightarrow>
      cmp (es ! binary_heap_get_parent_index i) (es ! i) \<noteq> GREATER_THAN) \<Longrightarrow>
   (k \<noteq> 0 \<longrightarrow> (\<forall>i. 0 < i \<and> i < n \<and> binary_heap_get_parent_index i = k \<longrightarrow>
      cmp (es ! binary_heap_get_parent_index k) (es ! i) \<noteq> GREATER_THAN)) \<Longrightarrow>
   heap_ok cmp n (bubble_loop cmp es k)"
proof (induction cmp es k rule: bubble_loop.induct)
  case (1 cmp es k)
  let ?p = "binary_heap_get_parent_index k"
  let ?es' = "es[k := es ! ?p, ?p := es ! k]"
  show ?case
  proof (cases "k \<noteq> 0 \<and> cmp (es ! k) (es ! ?p) = LESS_THAN")
    case True
    then have k0: "k \<noteq> 0" and less: "cmp (es ! k) (es ! ?p) = LESS_THAN" by simp_all
    have pk: "?p < k" using parent_less k0 by simp
    have c: "\<forall>i. 0 < i \<and> i < n \<and> binary_heap_get_parent_index i = k \<longrightarrow>
              cmp (es ! ?p) (es ! i) \<noteq> GREATER_THAN"
      using "1.prems"(6) k0 by simp
    have sub': "set (take n ?es') \<subseteq> S"
      using take_swap_set [of k n ?p es] pk "1.prems" by simp
    have b': "\<forall>i. 0 < i \<and> i < n \<and> i \<noteq> ?p \<longrightarrow>
        cmp (?es' ! binary_heap_get_parent_index i) (?es' ! i) \<noteq> GREATER_THAN"
      using bubble_step_others [OF "1.prems"(1,2,3,4,5) c k0 refl less] by blast
    have c': "?p \<noteq> 0 \<longrightarrow> (\<forall>i. 0 < i \<and> i < n \<and> binary_heap_get_parent_index i = ?p \<longrightarrow>
        cmp (?es' ! binary_heap_get_parent_index ?p) (?es' ! i) \<noteq> GREATER_THAN)"
      using bubble_step_children [OF "1.prems"(1,2,3,4,5) k0 refl less] by blast
    have "heap_ok cmp n (bubble_loop cmp ?es' ?p)"
      using "1.IH" [OF refl True "1.prems"(1) _ _ sub' b' c'] pk "1.prems"(2,3) by simp
    then show ?thesis
      using True by (subst bubble_loop.simps) (simp add: Let_def)
  next
    case False
    have "heap_ok cmp n es"
      unfolding heap_ok_def
    proof (intro allI impI)
      fix i assume i: "0 < i \<and> i < n"
      show "cmp (es ! binary_heap_get_parent_index i) (es ! i) \<noteq> GREATER_THAN"
      proof (cases "i = k")
        case True
        then have "cmp (es ! k) (es ! ?p) \<noteq> LESS_THAN" using False i by auto
        moreover have "es ! k \<in> S" "es ! ?p \<in> S"
          using nth_in_S "1.prems" parent_less [of k] True i
          by (metis less_trans)+
        ultimately show ?thesis
          using heap_order_not_less_le [OF "1.prems"(1)] True by blast
      next
        case False
        then show ?thesis using "1.prems"(5) i by simp
      qed
    qed
    then show ?thesis
      using False by (subst bubble_loop.simps) (auto simp add: Let_def)
  qed
qed

lemma comparison_cases:
  "c \<noteq> LESS_THAN \<Longrightarrow> c \<noteq> EQUAL_TO \<Longrightarrow> c = GREATER_THAN"
  by (cases c) simp_all

subsection \<open>The sift-down loop keeps the elements and restores the heap property\<close>

lemma pop_min_loop_length: "length (pop_min_loop cmp n es k) = length es"
proof (induction cmp n es k rule: pop_min_loop.induct)
  case (1 cmp n es k)
  show ?case
    using 1 by (subst pop_min_loop.simps) (simp add: Let_def)
qed

lemma pop_min_loop_mset:
  "n \<le> length es \<Longrightarrow> mset (take n (pop_min_loop cmp n es k)) = mset (take n es)"
proof (induction cmp n es k rule: pop_min_loop.induct)
  case (1 cmp n es k)
  let ?l = "binary_heap_get_left_child_index k"
  let ?r = "binary_heap_get_right_child_index k"
  let ?f = "pop_min_swap_flags cmp n es k"
  show ?case
  proof (cases "?l < n \<or> ?r < n")
    case False
    then show ?thesis by (subst pop_min_loop.simps) (simp add: Let_def)
  next
    case child: True
    then have kn: "k < n"
      by (auto simp: binary_heap_get_left_child_index_def binary_heap_get_right_child_index_def)
    show ?thesis
    proof (cases "fst ?f")
      case True
      then have ln: "?l < n"
        using pop_min_swap_flags_left by (simp add: binary_heap_get_left_child_index_def)
      have "mset (take n (pop_min_loop cmp n (es[k := es ! ?l, ?l := es ! k]) ?l))
          = mset (take n (es[k := es ! ?l, ?l := es ! k]))"
        using "1.IH"(1) [OF refl refl child refl True] "1.prems" by simp
      also have "\<dots> = mset (take n es)"
        using take_swap_mset [of k n ?l es] kn ln "1.prems" by simp
      finally show ?thesis
        using True child by (subst pop_min_loop.simps) (simp add: Let_def)
    next
      case nf: False
      show ?thesis
      proof (cases "snd ?f")
        case True
        then have rn: "?r < n"
          using pop_min_swap_flags_right by (simp add: binary_heap_get_right_child_index_def)
        have "mset (take n (pop_min_loop cmp n (es[k := es ! ?r, ?r := es ! k]) ?r))
            = mset (take n (es[k := es ! ?r, ?r := es ! k]))"
          using "1.IH"(2) [OF refl refl child refl nf True] "1.prems" by simp
        also have "\<dots> = mset (take n es)"
          using take_swap_mset [of k n ?r es] kn rn "1.prems" by simp
        finally show ?thesis
          using True nf child by (subst pop_min_loop.simps) (simp add: Let_def)
      next
        case False
        then show ?thesis
          using nf child by (subst pop_min_loop.simps) (simp add: Let_def)
      qed
    qed
  qed
qed

lemma swap_flags_left_child:
  assumes tot: "comparator_heap_order_on S cmp"
    and nl: "n \<le> length es" and sub: "set (take n es) \<subseteq> S"
    and f: "fst (pop_min_swap_flags cmp n es k)"
  shows "2 * k + 1 < n"
    and "cmp (es ! k) (es ! (2 * k + 1)) = GREATER_THAN"
    and "2 * k + 2 < n \<Longrightarrow> cmp (es ! (2 * k + 1)) (es ! (2 * k + 2)) \<noteq> GREATER_THAN"
proof -
  show ln: "2 * k + 1 < n" using f by (rule pop_min_swap_flags_left)
  show gt: "cmp (es ! k) (es ! (2 * k + 1)) = GREATER_THAN"
    using f
    by (auto simp: pop_min_swap_flags_def Let_def binary_heap_get_left_child_index_def
        binary_heap_get_right_child_index_def split: if_splits)
  assume rn: "2 * k + 2 < n"
  have inS: "es ! k \<in> S" "es ! (2 * k + 1) \<in> S" "es ! (2 * k + 2) \<in> S"
    using nth_in_S [OF _ nl sub] rn by simp_all
  have lk: "cmp (es ! (2 * k + 1)) (es ! k) \<noteq> GREATER_THAN"
    using heap_order_greater_le [OF tot inS(1,2) gt] .
  have "cmp (es ! k) (es ! (2 * k + 2)) = GREATER_THAN \<Longrightarrow>
        cmp (es ! (2 * k + 1)) (es ! (2 * k + 2)) \<noteq> GREATER_THAN"
    using f rn
    by (auto simp: pop_min_swap_flags_def Let_def binary_heap_get_left_child_index_def
        binary_heap_get_right_child_index_def split: if_splits)
  moreover have "cmp (es ! k) (es ! (2 * k + 2)) \<noteq> GREATER_THAN \<Longrightarrow>
        cmp (es ! (2 * k + 1)) (es ! (2 * k + 2)) \<noteq> GREATER_THAN"
    using heap_order_trans [OF tot inS(2,1,3) inS(2) heap_order_greater_less [OF tot inS(1,2) gt] lk] .
  ultimately show "cmp (es ! (2 * k + 1)) (es ! (2 * k + 2)) \<noteq> GREATER_THAN"
    by blast
qed

lemma swap_flags_right_child:
  assumes tot: "comparator_heap_order_on S cmp"
    and nl: "n \<le> length es" and sub: "set (take n es) \<subseteq> S"
    and nf: "\<not> fst (pop_min_swap_flags cmp n es k)"
    and f: "snd (pop_min_swap_flags cmp n es k)"
  shows "2 * k + 2 < n"
    and "cmp (es ! k) (es ! (2 * k + 2)) = GREATER_THAN"
    and "cmp (es ! (2 * k + 2)) (es ! (2 * k + 1)) \<noteq> GREATER_THAN"
proof -
  show rn: "2 * k + 2 < n" using f by (rule pop_min_swap_flags_right)
  show gt: "cmp (es ! k) (es ! (2 * k + 2)) = GREATER_THAN"
    using f nf
    by (auto simp: pop_min_swap_flags_def Let_def binary_heap_get_left_child_index_def
        binary_heap_get_right_child_index_def split: if_splits)
  have inS: "es ! k \<in> S" "es ! (2 * k + 1) \<in> S" "es ! (2 * k + 2) \<in> S"
    using nth_in_S [OF _ nl sub] rn by simp_all
  have rk: "cmp (es ! (2 * k + 2)) (es ! k) \<noteq> GREATER_THAN"
    using heap_order_greater_le [OF tot inS(1,3) gt] .
  have "cmp (es ! k) (es ! (2 * k + 1)) = GREATER_THAN \<Longrightarrow>
        cmp (es ! (2 * k + 1)) (es ! (2 * k + 2)) = GREATER_THAN"
    using f nf rn
    by (auto simp: pop_min_swap_flags_def Let_def binary_heap_get_left_child_index_def
        binary_heap_get_right_child_index_def split: if_splits intro: comparison_cases)
  then have "cmp (es ! k) (es ! (2 * k + 1)) = GREATER_THAN \<Longrightarrow>
        cmp (es ! (2 * k + 2)) (es ! (2 * k + 1)) \<noteq> GREATER_THAN"
    using heap_order_greater_le [OF tot inS(2,3)] by blast
  moreover have "cmp (es ! k) (es ! (2 * k + 1)) \<noteq> GREATER_THAN \<Longrightarrow>
        cmp (es ! (2 * k + 2)) (es ! (2 * k + 1)) \<noteq> GREATER_THAN"
    using heap_order_trans [OF tot inS(3,1,2) inS(3) heap_order_greater_less [OF tot inS(1,3) gt] rk] .
  ultimately show "cmp (es ! (2 * k + 2)) (es ! (2 * k + 1)) \<noteq> GREATER_THAN"
    by blast
qed

lemma swap_flags_none:
  assumes nf: "\<not> fst (pop_min_swap_flags cmp n es k)"
    and ns: "\<not> snd (pop_min_swap_flags cmp n es k)"
  shows "2 * k + 1 < n \<Longrightarrow> cmp (es ! k) (es ! (2 * k + 1)) \<noteq> GREATER_THAN"
    and "2 * k + 2 < n \<Longrightarrow> cmp (es ! k) (es ! (2 * k + 2)) \<noteq> GREATER_THAN"
  using nf ns
  by (auto simp: pop_min_swap_flags_def Let_def binary_heap_get_left_child_index_def
      binary_heap_get_right_child_index_def split: if_splits)

lemma sift_step_others:
  assumes tot: "comparator_heap_order_on S cmp"
    and nl: "n \<le> length es" and sub: "set (take n es) \<subseteq> S"
    and a: "\<forall>i. 0 < i \<and> i < n \<and> binary_heap_get_parent_index i \<noteq> k \<longrightarrow>
              cmp (es ! binary_heap_get_parent_index i) (es ! i) \<noteq> GREATER_THAN"
    and b: "k \<noteq> 0 \<longrightarrow> (\<forall>i. 0 < i \<and> i < n \<and> binary_heap_get_parent_index i = k \<longrightarrow>
              cmp (es ! binary_heap_get_parent_index k) (es ! i) \<noteq> GREATER_THAN)"
    and cn: "c < n" and pc: "binary_heap_get_parent_index c = k" and c0: "0 < c"
    and gt: "cmp (es ! k) (es ! c) = GREATER_THAN"
    and least: "\<forall>i. 0 < i \<and> i < n \<and> binary_heap_get_parent_index i = k \<longrightarrow>
              cmp (es ! c) (es ! i) \<noteq> GREATER_THAN"
    and i: "0 < i" "i < n" "binary_heap_get_parent_index i \<noteq> c"
  shows "cmp ((es[k := es ! c, c := es ! k]) ! binary_heap_get_parent_index i)
             ((es[k := es ! c, c := es ! k]) ! i) \<noteq> GREATER_THAN"
proof -
  let ?es' = "es[k := es ! c, c := es ! k]"
  let ?q = "binary_heap_get_parent_index i"
  have kc: "k < c" using parent_less [OF c0] pc by simp
  have qi: "?q < i" using parent_less i by simp
  have kl: "k < length es" "c < length es" "i < length es" "?q < length es"
    using cn nl kc qi i by auto
  have inS: "\<And>j. j < n \<Longrightarrow> es ! j \<in> S" using nth_in_S nl sub by blast
  have ck: "cmp (es ! c) (es ! k) \<noteq> GREATER_THAN"
    using heap_order_greater_le [OF tot _ _ gt] inS kc cn by simp
  show ?thesis
  proof (cases "i = c")
    case True
    then have "?es' ! ?q = es ! c" "?es' ! i = es ! k"
      using pc kc kl by simp_all
    then show ?thesis using ck by simp
  next
    case ic: False
    show ?thesis
    proof (cases "i = k")
      case True
      then have k0: "k \<noteq> 0" using i by simp
      have "?q \<noteq> k" using qi True by simp
      then have "?es' ! ?q = es ! ?q" using i(3) kl by simp
      moreover have "?es' ! i = es ! c" using True kc kl by simp
      moreover have "cmp (es ! binary_heap_get_parent_index k) (es ! c) \<noteq> GREATER_THAN"
        using b k0 c0 cn pc by simp
      ultimately show ?thesis using True by simp
    next
      case ik: False
      then have ei: "?es' ! i = es ! i" using ic kl by simp
      show ?thesis
      proof (cases "?q = k")
        case True
        then have "?es' ! ?q = es ! c" using kc kl by simp
        moreover have "cmp (es ! c) (es ! i) \<noteq> GREATER_THAN"
          using least i True by simp
        ultimately show ?thesis using ei by simp
      next
        case False
        then have "?es' ! ?q = es ! ?q" using i(3) kl by simp
        then show ?thesis using ei a i False by simp
      qed
    qed
  qed
qed

lemma sift_step_children:
  assumes nl: "n \<le> length es"
    and a: "\<forall>i. 0 < i \<and> i < n \<and> binary_heap_get_parent_index i \<noteq> k \<longrightarrow>
              cmp (es ! binary_heap_get_parent_index i) (es ! i) \<noteq> GREATER_THAN"
    and cn: "c < n" and pc: "binary_heap_get_parent_index c = k" and c0: "0 < c"
    and i: "0 < i" "i < n" "binary_heap_get_parent_index i = c"
  shows "cmp ((es[k := es ! c, c := es ! k]) ! binary_heap_get_parent_index c)
             ((es[k := es ! c, c := es ! k]) ! i) \<noteq> GREATER_THAN"
proof -
  let ?es' = "es[k := es ! c, c := es ! k]"
  have kc: "k < c" using parent_less [OF c0] pc by simp
  have ci: "c < i" using parent_less [of i] i by simp
  have kl: "k < length es" "c < length es" "i < length es"
    using cn nl kc ci i by auto
  have "?es' ! k = es ! c" using kc kl by simp
  moreover have "?es' ! i = es ! i" using kc ci kl by simp
  moreover have "cmp (es ! c) (es ! i) \<noteq> GREATER_THAN"
    using a [rule_format, of i] i kc by simp
  ultimately show ?thesis using pc by simp
qed

lemma pop_min_loop_heap_ok:
  "comparator_heap_order_on S cmp \<Longrightarrow> n \<le> length es \<Longrightarrow> set (take n es) \<subseteq> S \<Longrightarrow>
   (\<forall>i. 0 < i \<and> i < n \<and> binary_heap_get_parent_index i \<noteq> k \<longrightarrow>
      cmp (es ! binary_heap_get_parent_index i) (es ! i) \<noteq> GREATER_THAN) \<Longrightarrow>
   (k \<noteq> 0 \<longrightarrow> (\<forall>i. 0 < i \<and> i < n \<and> binary_heap_get_parent_index i = k \<longrightarrow>
      cmp (es ! binary_heap_get_parent_index k) (es ! i) \<noteq> GREATER_THAN)) \<Longrightarrow>
   heap_ok cmp n (pop_min_loop cmp n es k)"
proof (induction cmp n es k rule: pop_min_loop.induct)
  case (1 cmp n es k)
  let ?l = "binary_heap_get_left_child_index k"
  let ?r = "binary_heap_get_right_child_index k"
  let ?f = "pop_min_swap_flags cmp n es k"
  note tot = "1.prems"(1) and nl = "1.prems"(2) and sub = "1.prems"(3)
    and a = "1.prems"(4) and b = "1.prems"(5)
  have l: "?l = 2 * k + 1" and r: "?r = 2 * k + 2"
    by (simp_all add: binary_heap_get_left_child_index_def
        binary_heap_get_right_child_index_def)
  have inS: "\<And>j. j < n \<Longrightarrow> es ! j \<in> S" using nth_in_S nl sub by blast
  have stop: "heap_ok cmp n es"
    if "2 * k + 1 < n \<Longrightarrow> cmp (es ! k) (es ! (2 * k + 1)) \<noteq> GREATER_THAN"
      and "2 * k + 2 < n \<Longrightarrow> cmp (es ! k) (es ! (2 * k + 2)) \<noteq> GREATER_THAN"
    unfolding heap_ok_def
  proof (intro allI impI)
    fix i assume i: "0 < i \<and> i < n"
    show "cmp (es ! binary_heap_get_parent_index i) (es ! i) \<noteq> GREATER_THAN"
    proof (cases "binary_heap_get_parent_index i = k")
      case True
      then have "i = 2 * k + 1 \<or> i = 2 * k + 2" using parent_eq_iff [of i k] i by simp
      then show ?thesis using that True i by auto
    next
      case False
      then show ?thesis using a i by simp
    qed
  qed
  show ?case
  proof (cases "?l < n \<or> ?r < n")
    case False
    then have "heap_ok cmp n es" using stop l r by simp
    then show ?thesis
      using False by (subst pop_min_loop.simps) (simp add: Let_def)
  next
    case child: True
    show ?thesis
    proof (cases "fst ?f")
      case True
      let ?es' = "es[k := es ! ?l, ?l := es ! k]"
      note fl = swap_flags_left_child [OF tot nl sub True]
      have ln: "?l < n" and kn: "k < n" using fl(1) l by simp_all
      have pc: "binary_heap_get_parent_index ?l = k"
        using parent_eq_iff [of ?l k] l by simp
      have gt: "cmp (es ! k) (es ! ?l) = GREATER_THAN" using fl(2) l by simp
      have least: "\<forall>i. 0 < i \<and> i < n \<and> binary_heap_get_parent_index i = k \<longrightarrow>
              cmp (es ! ?l) (es ! i) \<noteq> GREATER_THAN"
      proof (intro allI impI)
        fix i assume i: "0 < i \<and> i < n \<and> binary_heap_get_parent_index i = k"
        then have "i = 2 * k + 1 \<or> i = 2 * k + 2" using parent_eq_iff [of i k] by simp
        then show "cmp (es ! ?l) (es ! i) \<noteq> GREATER_THAN"
          using fl(3) heap_order_refl [OF tot inS [OF ln]] i l by auto
      qed
      have sub': "set (take n ?es') \<subseteq> S"
        using take_swap_set [of k n ?l es] kn ln nl sub by simp
      have a': "\<forall>i. 0 < i \<and> i < n \<and> binary_heap_get_parent_index i \<noteq> ?l \<longrightarrow>
          cmp (?es' ! binary_heap_get_parent_index i) (?es' ! i) \<noteq> GREATER_THAN"
        using sift_step_others [OF tot nl sub a b ln pc _ gt least] l by simp
      have b': "?l \<noteq> 0 \<longrightarrow> (\<forall>i. 0 < i \<and> i < n \<and> binary_heap_get_parent_index i = ?l \<longrightarrow>
          cmp (?es' ! binary_heap_get_parent_index ?l) (?es' ! i) \<noteq> GREATER_THAN)"
        using sift_step_children [OF nl a ln pc] l by simp
      have "heap_ok cmp n (pop_min_loop cmp n ?es' ?l)"
        using "1.IH"(1) [OF refl refl child refl True tot _ sub' a' b'] nl by simp
      then show ?thesis
        using True child by (subst pop_min_loop.simps) (simp add: Let_def)
    next
      case nf: False
      show ?thesis
      proof (cases "snd ?f")
        case True
        let ?es' = "es[k := es ! ?r, ?r := es ! k]"
        note fr = swap_flags_right_child [OF tot nl sub nf True]
        have rn: "?r < n" and kn: "k < n" using fr(1) r by simp_all
        have ln: "2 * k + 1 < n" using fr(1) by simp
        have pc: "binary_heap_get_parent_index ?r = k"
          using parent_eq_iff [of ?r k] r by simp
        have gt: "cmp (es ! k) (es ! ?r) = GREATER_THAN" using fr(2) r by simp
        have least: "\<forall>i. 0 < i \<and> i < n \<and> binary_heap_get_parent_index i = k \<longrightarrow>
              cmp (es ! ?r) (es ! i) \<noteq> GREATER_THAN"
        proof (intro allI impI)
          fix i assume i: "0 < i \<and> i < n \<and> binary_heap_get_parent_index i = k"
          then have "i = 2 * k + 1 \<or> i = 2 * k + 2" using parent_eq_iff [of i k] by simp
          then show "cmp (es ! ?r) (es ! i) \<noteq> GREATER_THAN"
            using fr(3) heap_order_refl [OF tot inS [OF rn]] i r by auto
        qed
        have sub': "set (take n ?es') \<subseteq> S"
          using take_swap_set [of k n ?r es] kn rn nl sub by simp
        have a': "\<forall>i. 0 < i \<and> i < n \<and> binary_heap_get_parent_index i \<noteq> ?r \<longrightarrow>
            cmp (?es' ! binary_heap_get_parent_index i) (?es' ! i) \<noteq> GREATER_THAN"
          using sift_step_others [OF tot nl sub a b rn pc _ gt least] r by simp
        have b': "?r \<noteq> 0 \<longrightarrow> (\<forall>i. 0 < i \<and> i < n \<and> binary_heap_get_parent_index i = ?r \<longrightarrow>
            cmp (?es' ! binary_heap_get_parent_index ?r) (?es' ! i) \<noteq> GREATER_THAN)"
          using sift_step_children [OF nl a rn pc] r by simp
        have "heap_ok cmp n (pop_min_loop cmp n ?es' ?r)"
          using "1.IH"(2) [OF refl refl child refl nf True tot _ sub' a' b'] nl by simp
        then show ?thesis
          using True nf child by (subst pop_min_loop.simps) (simp add: Let_def)
      next
        case False
        have "heap_ok cmp n es"
          using stop swap_flags_none [OF nf False] by blast
        then show ?thesis
          using False nf child by (subst pop_min_loop.simps) (simp add: Let_def)
      qed
    qed
  qed
qed

subsection \<open>Insert and pop on whole heaps\<close>

lemma create_empty_heap_shape: "heap_shape (create_empty_heap cmp)"
  by (simp add: heap_shape_def create_empty_heap_def DEFAULT_ARR_CAPACITY_def)

lemma create_empty_heap_contents: "heap_contents (create_empty_heap cmp) = {#}"
  by (simp add: heap_contents_def create_empty_heap_def)

lemma binary_heap_insert_eq:
  "size_h hp \<le> capacity hp \<Longrightarrow>
   binary_heap_insert hp elem =
     Inr (hp\<lparr>capacity := (if size_h hp = capacity hp then 2 * capacity hp
                               else capacity hp),
               elems := bubble_loop (comparator hp) (insert_array hp elem) (size_h hp),
               size_h := size_h hp + 1\<rparr>)"
  by (simp add: binary_heap_insert_def binary_heap_bubble_last_element_def Let_def
      insert_array_def)

lemma insert_array_length:
  "heap_shape hp \<Longrightarrow>
   length (insert_array hp elem) =
     (if size_h hp = capacity hp then 2 * capacity hp else capacity hp)"
  by (simp add: insert_array_def heap_shape_def)

lemma insert_array_take:
  assumes "heap_shape hp"
  shows "take (size_h hp + 1) (insert_array hp elem)
         = take (size_h hp) (elems hp) @ [elem]"
proof -
  let ?n = "size_h hp"
  let ?es0 = "if ?n = capacity hp
       then elems hp @ replicate (2 * capacity hp - length (elems hp)) None
       else elems hp"
  have len: "?n < length ?es0" and nl: "?n \<le> length (elems hp)"
    using assms by (auto simp: heap_shape_def)
  have "take (Suc ?n) (?es0[?n := elem]) = take ?n (?es0[?n := elem]) @ [?es0[?n := elem] ! ?n]"
    using len by (simp add: take_Suc_conv_app_nth)
  also have "\<dots> = take ?n ?es0 @ [elem]" using len by simp
  also have "take ?n ?es0 = take ?n (elems hp)" using nl by simp
  finally show ?thesis by (simp add: insert_array_def)
qed

lemma insert_array_nth:
  "heap_shape hp \<Longrightarrow> i < size_h hp \<Longrightarrow> insert_array hp elem ! i = elems hp ! i"
  by (auto simp: insert_array_def heap_shape_def nth_append)

lemma binary_heap_insert_shape:
  assumes "heap_shape hp"
  obtains heap' where "binary_heap_insert hp elem = Inr heap'"
    and "heap_shape heap'" and "size_h heap' = size_h hp + 1"
    and "comparator heap' = comparator hp"
    and "heap_contents heap' = add_mset elem (heap_contents hp)"
proof -
  define h where "h = hp\<lparr>capacity := (if size_h hp = capacity hp then 2 * capacity hp
                               else capacity hp),
               elems := bubble_loop (comparator hp) (insert_array hp elem) (size_h hp),
               size_h := size_h hp + 1\<rparr>"
  have le: "size_h hp \<le> capacity hp" using assms by (simp add: heap_shape_def)
  have 1: "binary_heap_insert hp elem = Inr h"
    using binary_heap_insert_eq [OF le] by (simp add: h_def)
  have sz: "size_h h = size_h hp + 1" and cm: "comparator h = comparator hp"
    and el: "elems h = bubble_loop (comparator hp) (insert_array hp elem) (size_h hp)"
    and cp: "capacity h = (if size_h hp = capacity hp then 2 * capacity hp
                               else capacity hp)"
    by (simp_all add: h_def)
  have len: "length (insert_array hp elem) = capacity h"
    using insert_array_length [OF assms, of elem] cp by simp
  have cap: "size_h hp + 1 \<le> capacity h" "0 < capacity h"
    using assms cp by (auto simp: heap_shape_def)
  have 2: "heap_shape h"
    unfolding heap_shape_def using sz el len cap by (simp add: bubble_loop_length)
  have "mset (take (size_h hp + 1)
          (bubble_loop (comparator hp) (insert_array hp elem) (size_h hp)))
        = mset (take (size_h hp + 1) (insert_array hp elem))"
    using bubble_loop_mset [of "size_h hp" "size_h hp + 1" "insert_array hp elem"]
      len cap by simp
  then have 3: "heap_contents h = add_mset elem (heap_contents hp)"
    using insert_array_take [OF assms, of elem] sz el by (simp add: heap_contents_def)
  show thesis
    using that [OF 1 2 sz cm 3] .
qed

lemma binary_heap_insert_fields:
  assumes "heap_shape hp" and "binary_heap_insert hp elem = Inr heap'"
  shows "size_h heap' = size_h hp + 1"
    and "comparator heap' = comparator hp"
    and "elems heap' = bubble_loop (comparator hp) (insert_array hp elem) (size_h hp)"
proof -
  have le: "size_h hp \<le> capacity hp" using assms by (simp add: heap_shape_def)
  have "heap' = hp\<lparr>capacity := (if size_h hp = capacity hp then 2 * capacity hp
                               else capacity hp),
               elems := bubble_loop (comparator hp) (insert_array hp elem) (size_h hp),
               size_h := size_h hp + 1\<rparr>"
    using binary_heap_insert_eq [OF le, of elem] assms(2) by simp
  then show "size_h heap' = size_h hp + 1"
    and "comparator heap' = comparator hp"
    and "elems heap' = bubble_loop (comparator hp) (insert_array hp elem) (size_h hp)"
    by simp_all
qed

lemma binary_heap_insert_heap_ok:
  assumes tot: "comparator_heap_order_on S (comparator hp)"
    and shape: "heap_shape hp"
    and sub: "set_mset (heap_contents hp) \<subseteq> S" and elem: "elem \<in> S"
    and ok: "heap_ok (comparator hp) (size_h hp) (elems hp)"
    and ins: "binary_heap_insert hp elem = Inr heap'"
  shows "heap_ok (comparator heap') (size_h heap') (elems heap')"
proof -
  let ?n = "size_h hp"
  let ?es = "insert_array hp elem"
  let ?cmp = "comparator hp"
  note f = binary_heap_insert_fields [OF shape ins]
  have len: "?n + 1 \<le> length ?es"
    using shape insert_array_length [OF shape, of elem] by (auto simp: heap_shape_def)
  have sub': "set (take (?n + 1) ?es) \<subseteq> S"
    using insert_array_take [OF shape, of elem] sub elem by (simp add: heap_contents_def)
  have b: "\<forall>i. 0 < i \<and> i < ?n + 1 \<and> i \<noteq> ?n \<longrightarrow>
      ?cmp (?es ! binary_heap_get_parent_index i) (?es ! i) \<noteq> GREATER_THAN"
  proof (intro allI impI)
    fix i assume i: "0 < i \<and> i < ?n + 1 \<and> i \<noteq> ?n"
    then have i1: "i < ?n" by simp
    have i2: "binary_heap_get_parent_index i < ?n"
      using parent_less [of i] i by simp
    have "?cmp (elems hp ! binary_heap_get_parent_index i) (elems hp ! i) \<noteq> GREATER_THAN"
      using ok i i1 unfolding heap_ok_def by blast
    then show "?cmp (?es ! binary_heap_get_parent_index i) (?es ! i) \<noteq> GREATER_THAN"
      using insert_array_nth [OF shape i1] insert_array_nth [OF shape i2] by simp
  qed
  have c: "?n \<noteq> 0 \<longrightarrow> (\<forall>i. 0 < i \<and> i < ?n + 1 \<and> binary_heap_get_parent_index i = ?n \<longrightarrow>
      ?cmp (?es ! binary_heap_get_parent_index ?n) (?es ! i) \<noteq> GREATER_THAN)"
  proof (intro allI impI)
    fix i assume "?n \<noteq> 0" and i: "0 < i \<and> i < ?n + 1 \<and> binary_heap_get_parent_index i = ?n"
    then have "?n < i" using parent_less [of i] by simp
    then have False using i by simp
    then show "?cmp (?es ! binary_heap_get_parent_index ?n) (?es ! i) \<noteq> GREATER_THAN" ..
  qed
  have "heap_ok ?cmp (?n + 1) (bubble_loop ?cmp ?es ?n)"
    by (rule bubble_loop_heap_ok [OF tot _ len sub' b c]) simp
  then show ?thesis using f by simp
qed

lemma binary_heap_pop_min_null:
  "binary_heap_min hp = None \<Longrightarrow> binary_heap_pop_min hp = (None, hp)"
  by (simp add: binary_heap_pop_min_def)

lemma binary_heap_pop_min_some:
  "binary_heap_min hp = Some x \<Longrightarrow>
   binary_heap_pop_min hp =
     (Some x, hp\<lparr>elems := pop_min_loop (comparator hp) (size_h hp - 1) (pop_array hp) 0,
                     size_h := size_h hp - 1\<rparr>)"
  by (simp add: binary_heap_pop_min_def pop_array_def Let_def)

lemma binary_heap_min_some:
  "binary_heap_min hp = Some x \<Longrightarrow> 0 < size_h hp \<and> elems hp ! 0 = Some x"
  by (auto simp: binary_heap_min_def split: if_splits)

text \<open>
  A \<^verbatim>\<open>NULL\<close> handle at the root is taken for "empty": the pop returns
  \<^verbatim>\<open>NULL\<close> and removes nothing. Handles are therefore not \<^verbatim>\<open>NULL\<close>
  (\<^verbatim>\<open>free_heap\<close> asserts it of every stored element), and the theorems about
  what the pops return assume it.
\<close>

lemma binary_heap_pop_min_null_root:
  "elems hp ! 0 = None \<Longrightarrow> binary_heap_pop_min hp = (None, hp)"
  by (simp add: binary_heap_pop_min_def binary_heap_min_def)

lemma pop_array_length: "length (pop_array hp) = length (elems hp)"
  by (simp add: pop_array_def)

lemma pop_array_nth:
  "0 < i \<Longrightarrow> i < size_h hp - 1 \<Longrightarrow> pop_array hp ! i = elems hp ! i"
  by (simp add: pop_array_def)

lemma pop_array_contents:
  assumes n: "0 < size_h hp" and len: "size_h hp \<le> length (elems hp)"
  shows "add_mset (elems hp ! 0) (mset (take (size_h hp - 1) (pop_array hp)))
         = mset (take (size_h hp) (elems hp))"
proof -
  let ?es = "elems hp"
  define n where "n = size_h hp - 1"
  have sz: "size_h hp = Suc n" using n by (simp add: n_def)
  have nl: "n < length ?es" using len sz by simp
  have full: "mset (take (Suc n) ?es) = add_mset (?es ! n) (mset (take n ?es))"
    using nl by (simp add: take_Suc_conv_app_nth)
  have red: "take n (?es[0 := ?es ! n, n := None]) = (take n ?es)[0 := ?es ! n]"
    by (simp add: take_update_swap list_update_beyond)
  show ?thesis
  proof (cases "n = 0")
    case True
    then show ?thesis using full sz by (simp add: pop_array_def)
  next
    case False
    then have l0: "0 < length (take n ?es)" using nl by simp
    have root: "take n ?es ! 0 = ?es ! 0" using False by simp
    have mem: "?es ! 0 \<in># mset (take n ?es)"
      using l0 root by (metis nth_mem set_mset_mset)
    have "mset ((take n ?es)[0 := ?es ! n])
          = add_mset (?es ! n) (mset (take n ?es) - {#?es ! 0#})"
      using mset_update [OF l0, of "?es ! n"] root by simp
    then have "add_mset (?es ! 0) (mset (take n (?es[0 := ?es ! n, n := None])))
          = add_mset (?es ! 0) (add_mset (?es ! n) (mset (take n ?es) - {#?es ! 0#}))"
      using red by (simp only:)
    also have "\<dots> = add_mset (?es ! n) (add_mset (?es ! 0) (mset (take n ?es) - {#?es ! 0#}))"
      by (rule add_mset_commute)
    also have "add_mset (?es ! 0) (mset (take n ?es) - {#?es ! 0#}) = mset (take n ?es)"
      using mem by (rule insert_DiffM)
    finally have "add_mset (?es ! 0) (mset (take n (?es[0 := ?es ! n, n := None])))
          = mset (take (Suc n) ?es)"
      using full by (simp only:)
    then show ?thesis unfolding pop_array_def sz by simp
  qed
qed

lemma binary_heap_pop_min_facts:
  assumes shape: "heap_shape hp" and min: "binary_heap_min hp = Some x"
    and pop: "binary_heap_pop_min hp = (r, heap')"
  shows "r = Some x" and "size_h heap' = size_h hp - 1" and "0 < size_h hp"
    and "comparator heap' = comparator hp" and "heap_shape heap'"
    and "heap_contents hp = add_mset r (heap_contents heap')"
    and "elems heap' =
           pop_min_loop (comparator hp) (size_h hp - 1) (pop_array hp) 0"
proof -
  let ?n = "size_h hp - 1"
  have eq: "r = Some x"
      "heap' = hp\<lparr>elems := pop_min_loop (comparator hp) ?n (pop_array hp) 0,
                     size_h := ?n\<rparr>"
    using binary_heap_pop_min_some [OF min] pop by simp_all
  show "r = Some x" by (rule eq(1))
  show sz: "size_h heap' = ?n" using eq(2) by simp
  show pos: "0 < size_h hp" using binary_heap_min_some [OF min] by simp
  show "comparator heap' = comparator hp" using eq(2) by simp
  show el: "elems heap' = pop_min_loop (comparator hp) ?n (pop_array hp) 0"
    using eq(2) by simp
  have cp: "capacity heap' = capacity hp" using eq(2) by simp
  have len: "size_h hp \<le> length (elems hp)" using shape by (simp add: heap_shape_def)
  show "heap_shape heap'"
    using shape sz el cp
    by (auto simp: heap_shape_def pop_min_loop_length pop_array_length)
  have nl: "?n \<le> length (pop_array hp)" using len by (simp add: pop_array_length)
  have "heap_contents heap' = mset (take ?n (pop_array hp))"
    using sz el pop_min_loop_mset [OF nl] by (simp add: heap_contents_def)
  then show "heap_contents hp = add_mset r (heap_contents heap')"
    using pop_array_contents [OF pos len] binary_heap_min_some [OF min] eq(1)
    by (simp add: heap_contents_def)
qed

lemma binary_heap_pop_min_heap_ok:
  assumes tot: "comparator_heap_order_on S (comparator hp)"
    and shape: "heap_shape hp"
    and sub: "set_mset (heap_contents hp) \<subseteq> S"
    and ok: "heap_ok (comparator hp) (size_h hp) (elems hp)"
    and pop: "binary_heap_pop_min hp = (r, heap')"
  shows "heap_ok (comparator heap') (size_h heap') (elems heap')"
proof (cases "binary_heap_min hp")
  case None
  then have "heap' = hp" using binary_heap_pop_min_null [OF None] pop by simp
  then show ?thesis using ok by simp
next
  case (Some x)
  let ?n = "size_h hp - 1"
  let ?es = "pop_array hp"
  let ?cmp = "comparator hp"
  note f = binary_heap_pop_min_facts [OF shape Some pop]
  have len: "size_h hp \<le> length (elems hp)" using shape by (simp add: heap_shape_def)
  have nl: "?n \<le> length ?es" using len by (simp add: pop_array_length)
  have "set_mset (heap_contents hp) = insert r (set_mset (heap_contents heap'))"
    using f(6) by simp
  moreover have "heap_contents heap' = mset (take ?n ?es)"
    using f(2,7) pop_min_loop_mset [OF nl] by (simp add: heap_contents_def)
  ultimately have sub': "set (take ?n ?es) \<subseteq> S"
    using sub by auto
  have a: "\<forall>i. 0 < i \<and> i < ?n \<and> binary_heap_get_parent_index i \<noteq> 0 \<longrightarrow>
      ?cmp (?es ! binary_heap_get_parent_index i) (?es ! i) \<noteq> GREATER_THAN"
  proof (intro allI impI)
    fix i assume i: "0 < i \<and> i < ?n \<and> binary_heap_get_parent_index i \<noteq> 0"
    have p: "binary_heap_get_parent_index i < ?n" "0 < binary_heap_get_parent_index i"
      using parent_less [of i] i by simp_all
    have "0 < i \<and> i < size_h hp" using i by arith
    then have "?cmp (elems hp ! binary_heap_get_parent_index i) (elems hp ! i) \<noteq> GREATER_THAN"
      using ok unfolding heap_ok_def by blast
    then show "?cmp (?es ! binary_heap_get_parent_index i) (?es ! i) \<noteq> GREATER_THAN"
      using pop_array_nth [of i hp] pop_array_nth [OF p(2,1)] i by simp
  qed
  have "heap_ok ?cmp ?n (pop_min_loop ?cmp ?n ?es 0)"
    by (rule pop_min_loop_heap_ok [OF tot nl sub' a]) simp
  then show ?thesis using f by simp
qed

subsection \<open>The invariant along call sequences\<close>

lemma heap_inv_create:
  "heap_inv S cmp (create_empty_heap cmp)"
  by (simp add: heap_inv_def create_empty_heap_shape create_empty_heap_contents heap_ok_def)
     (simp add: create_empty_heap_def)

lemma heap_inv_insert:
  assumes tot: "comparator_heap_order_on S cmp" and inv: "heap_inv S cmp hp"
    and elem: "elem \<in> S"
  obtains heap' where "binary_heap_insert hp elem = Inr heap'" and "heap_inv S cmp heap'"
    and "size_h heap' = size_h hp + 1"
    and "heap_contents heap' = add_mset elem (heap_contents hp)"
proof -
  have shape: "heap_shape hp" and cmp: "comparator hp = cmp"
    and sub: "set_mset (heap_contents hp) \<subseteq> S"
    and ok: "heap_ok (comparator hp) (size_h hp) (elems hp)"
    using inv by (simp_all add: heap_inv_def)
  obtain heap' where h: "binary_heap_insert hp elem = Inr heap'"
    "heap_shape heap'" "size_h heap' = size_h hp + 1"
    "comparator heap' = comparator hp"
    "heap_contents heap' = add_mset elem (heap_contents hp)"
    using binary_heap_insert_shape [OF shape, of elem] by blast
  have "heap_ok (comparator heap') (size_h heap') (elems heap')"
    using binary_heap_insert_heap_ok [OF _ shape sub elem ok h(1)] tot cmp by simp
  then have "heap_inv S cmp heap'"
    using h cmp sub elem by (simp add: heap_inv_def)
  then show thesis using that h by blast
qed

lemma heap_inv_pop:
  assumes tot: "comparator_heap_order_on S cmp" and inv: "heap_inv S cmp hp"
    and pop: "binary_heap_pop_min hp = (r, heap')"
  shows "heap_inv S cmp heap'"
proof (cases "binary_heap_min hp")
  case None
  then have "heap' = hp" using binary_heap_pop_min_null [OF None] pop by simp
  then show ?thesis using inv by simp
next
  case (Some x)
  have shape: "heap_shape hp" and cmp: "comparator hp = cmp"
    and sub: "set_mset (heap_contents hp) \<subseteq> S"
    and ok: "heap_ok (comparator hp) (size_h hp) (elems hp)"
    using inv by (simp_all add: heap_inv_def)
  note f = binary_heap_pop_min_facts [OF shape Some pop]
  have "heap_ok (comparator heap') (size_h heap') (elems heap')"
    using binary_heap_pop_min_heap_ok [OF _ shape sub ok pop] tot cmp by simp
  moreover have "set_mset (heap_contents heap') \<subseteq> S"
    using f(6) sub by auto
  ultimately show ?thesis using f(4,5) cmp by (simp add: heap_inv_def)
qed


lemma run_calls_size:
  "heap_shape hp \<Longrightarrow>
   \<exists>rs heap'. run_calls hp calls = Inr (rs, heap') \<and> heap_shape heap' \<and>
      size_h heap' + length (filter (\<lambda>r. r \<noteq> None) rs)
        = size_h hp + length (inserted calls)"
proof (induction hp calls rule: run_calls.induct)
  case (1 hp)
  then show ?case by simp
next
  case (2 hp elem calls)
  obtain heap' where h: "binary_heap_insert hp elem = Inr heap'" "heap_shape heap'"
    "size_h heap' = size_h hp + 1"
    using binary_heap_insert_shape [OF "2.prems", of elem] by blast
  show ?case
    using "2.IH" [OF h(1,2)] h(1,3) by auto
next
  case (3 hp calls)
  obtain r heap' where p: "binary_heap_pop_min hp = (r, heap')"
    by (cases "binary_heap_pop_min hp")
  have s: "heap_shape heap' \<and> size_h heap' + (if r = None then 0 else 1) = size_h hp"
  proof (cases "binary_heap_min hp")
    case None
    then show ?thesis using binary_heap_pop_min_null [OF None] p "3.prems" by simp
  next
    case (Some x)
    note f = binary_heap_pop_min_facts [OF "3.prems" Some p]
    show ?thesis using f(1,2,3,5) by simp
  qed
  obtain rs heap'' where r: "run_calls heap' calls = Inr (rs, heap'')" "heap_shape heap''"
    "size_h heap'' + length (filter (\<lambda>r. r \<noteq> None) rs) = size_h heap' + length (inserted calls)"
    using "3.IH" [OF p [symmetric]] s by blast
  show ?case using p r s by (auto split: if_splits)
qed

lemma node_comparator_preorder:
  "comparator_total_preorder_on S (\<lambda>l r. node_comparator l r arg)"
  by (auto simp: comparator_total_preorder_on_def node_comparator_def Let_def split: if_splits)


subsection \<open>Popping everything: the root is least, the pops are sorted\<close>

lemma root_in_contents:
  "heap_shape hp \<Longrightarrow> 0 < size_h hp \<Longrightarrow> elems hp ! 0 \<in># heap_contents hp"
  unfolding heap_contents_def heap_shape_def
  by (metis in_set_conv_nth length_take min.absorb2 nth_take set_mset_mset)

lemma binary_heap_min_nonnull:
  assumes "heap_shape hp" and "0 < size_h hp" and "None \<notin># heap_contents hp"
  obtains x where "binary_heap_min hp = Some x"
proof -
  have "elems hp ! 0 \<noteq> None"
    using root_in_contents [OF assms(1,2)] assms(3) by metis
  then show thesis
    using that assms(2) by (auto simp: binary_heap_min_def)
qed

lemma heap_contents_empty: "size_h hp = 0 \<Longrightarrow> heap_contents hp = {#}"
  by (simp add: heap_contents_def)

lemma pop_times_contents:
  "heap_shape hp \<Longrightarrow> None \<notin># heap_contents hp \<Longrightarrow> k \<le> size_h hp \<Longrightarrow>
   \<exists>rs heap'. pop_times k hp = (rs, heap') \<and> heap_shape heap' \<and>
      heap_contents hp = mset rs + heap_contents heap' \<and>
      size_h heap' = size_h hp - k \<and> length rs = k"
proof (induction k arbitrary: hp)
  case 0
  then show ?case by simp
next
  case (Suc k)
  obtain x where m: "binary_heap_min hp = Some x"
    using binary_heap_min_nonnull [OF Suc.prems(1) _ Suc.prems(2)] Suc.prems(3) by auto
  obtain r heap1 where p: "binary_heap_pop_min hp = (r, heap1)"
    by (cases "binary_heap_pop_min hp")
  note f = binary_heap_pop_min_facts [OF Suc.prems(1) m p]
  have nn: "None \<notin># heap_contents heap1" using f(6) Suc.prems(2) by auto
  have k: "k \<le> size_h heap1" using f(2) Suc.prems(3) by simp
  obtain rs heap' where r: "pop_times k heap1 = (rs, heap')" "heap_shape heap'"
    "heap_contents heap1 = mset rs + heap_contents heap'"
    "size_h heap' = size_h heap1 - k" "length rs = k"
    using Suc.IH [OF f(5) nn k] by blast
  show ?case
    using p r f(2,6) by simp
qed

lemma insert_all_contents:
  "heap_shape hp \<Longrightarrow>
   \<exists>heap'. insert_all hp xs = Inr heap' \<and> heap_shape heap' \<and>
      heap_contents heap' = heap_contents hp + mset xs \<and>
      size_h heap' = size_h hp + length xs \<and> comparator heap' = comparator hp"
proof (induction xs arbitrary: hp)
  case Nil
  then show ?case by simp
next
  case (Cons x xs)
  obtain heap1 where h: "binary_heap_insert hp x = Inr heap1" "heap_shape heap1"
    "size_h heap1 = size_h hp + 1" "comparator heap1 = comparator hp"
    "heap_contents heap1 = add_mset x (heap_contents hp)"
    using binary_heap_insert_shape [OF Cons.prems, of x] by blast
  show ?case
    using Cons.IH [OF h(2)] h by auto
qed

lemma insert_all_heap_inv:
  "comparator_heap_order_on S cmp \<Longrightarrow> heap_inv S cmp hp \<Longrightarrow> set xs \<subseteq> S \<Longrightarrow>
   \<exists>heap'. insert_all hp xs = Inr heap' \<and> heap_inv S cmp heap' \<and>
      heap_contents heap' = heap_contents hp + mset xs"
proof (induction xs arbitrary: hp)
  case Nil
  then show ?case by simp
next
  case (Cons x xs)
  obtain heap1 where h: "binary_heap_insert hp x = Inr heap1" "heap_inv S cmp heap1"
    "heap_contents heap1 = add_mset x (heap_contents hp)"
    using heap_inv_insert [OF Cons.prems(1,2), of x] Cons.prems(3) by auto
  show ?case
    using Cons.IH [OF Cons.prems(1) h(2)] Cons.prems(3) h by auto
qed

lemma heap_ok_root_le:
  assumes tot: "comparator_total_preorder_on S cmp"
    and nl: "n \<le> length es" and sub: "set (take n es) \<subseteq> S"
    and ok: "heap_ok cmp n es"
  shows "i < n \<Longrightarrow> cmp (es ! 0) (es ! i) \<noteq> GREATER_THAN"
proof (induction i rule: less_induct)
  case (less i)
  have inS: "\<And>j. j < n \<Longrightarrow> es ! j \<in> S" using nth_in_S nl sub by blast
  show ?case
  proof (cases "i = 0")
    case True
    then show ?thesis using preorder_refl [OF tot inS] less.prems by simp
  next
    case False
    let ?p = "binary_heap_get_parent_index i"
    have pi: "?p < i" using parent_less False by simp
    have 1: "cmp (es ! 0) (es ! ?p) \<noteq> GREATER_THAN"
      using less.IH [OF pi] pi less.prems by simp
    have 2: "cmp (es ! ?p) (es ! i) \<noteq> GREATER_THAN"
      using ok False less.prems unfolding heap_ok_def by simp
    show ?thesis
      using preorder_trans [OF tot _ _ _ 1 2] inS pi less.prems by simp
  qed
qed

lemma heap_inv_root_le:
  assumes tot: "comparator_total_preorder_on S cmp" and inv: "heap_inv S cmp hp"
    and y: "y \<in># heap_contents hp"
  shows "cmp (elems hp ! 0) y \<noteq> GREATER_THAN"
proof -
  have shape: "heap_shape hp" and sub: "set (take (size_h hp) (elems hp)) \<subseteq> S"
    and ok: "heap_ok cmp (size_h hp) (elems hp)"
    using inv by (simp_all add: heap_inv_def heap_contents_def)
  have nl: "size_h hp \<le> length (elems hp)" using shape by (simp add: heap_shape_def)
  obtain i where "i < size_h hp" "y = elems hp ! i"
    using y nl unfolding heap_contents_def
    by (metis in_set_conv_nth length_take min.absorb2 nth_take set_mset_mset)
  then show ?thesis using heap_ok_root_le [OF tot nl sub ok] by simp
qed

lemma pop_until_empty_sorted:
  assumes tot: "comparator_total_preorder_on S cmp" and nn: "None \<notin> S"
  shows "heap_inv S cmp hp \<Longrightarrow> size_h hp = n \<Longrightarrow>
   \<exists>rs. pop_until_empty hp = Some rs \<and> mset rs = heap_contents hp \<and>
      sorted_wrt (\<lambda>a b. cmp a b \<noteq> GREATER_THAN) rs"
proof (induction n arbitrary: hp)
  case 0
  then show ?case
    by (subst pop_until_empty.simps) (simp add: binary_heap_size_def heap_contents_empty)
next
  case (Suc n)
  have shape: "heap_shape hp" and sub: "set_mset (heap_contents hp) \<subseteq> S"
    using Suc.prems(1) by (simp_all add: heap_inv_def)
  have nnc: "None \<notin># heap_contents hp" using sub nn by auto
  obtain x where m: "binary_heap_min hp = Some x"
    using binary_heap_min_nonnull [OF shape _ nnc] Suc.prems(2) by auto
  obtain r heap1 where p: "binary_heap_pop_min hp = (r, heap1)"
    by (cases "binary_heap_pop_min hp")
  note f = binary_heap_pop_min_facts [OF shape m p]
  have inv1: "heap_inv S cmp heap1" using heap_inv_pop [OF total_preorder_heap_order [OF tot] Suc.prems(1) p] .
  have sz: "size_h heap1 = n" using f(2) Suc.prems(2) by simp
  obtain rs where r: "pop_until_empty heap1 = Some rs" "mset rs = heap_contents heap1"
    "sorted_wrt (\<lambda>a b. cmp a b \<noteq> GREATER_THAN) rs"
    using Suc.IH [OF inv1 sz] by blast
  have root: "r = elems hp ! 0" using f(1) binary_heap_min_some [OF m] by simp
  have "\<forall>y\<in>set rs. cmp r y \<noteq> GREATER_THAN"
  proof
    fix y assume "y \<in> set rs"
    then have "y \<in># heap_contents heap1" using r(2) by (metis set_mset_mset)
    then have "y \<in># heap_contents hp" using f(6) by simp
    then show "cmp r y \<noteq> GREATER_THAN"
      using heap_inv_root_le [OF tot Suc.prems(1)] root by simp
  qed
  then have "sorted_wrt (\<lambda>a b. cmp a b \<noteq> GREATER_THAN) (r # rs)" using r(3) by simp
  moreover have "mset (r # rs) = heap_contents hp" using r(2) f(6) by simp
  moreover have "pop_until_empty hp = Some (r # rs)"
    using p r(1) Suc.prems(2) by (subst pop_until_empty.simps) (simp add: binary_heap_size_def)
  ultimately show ?case by blast
qed

lemma sorted_wrt_unique:
  assumes anti: "\<forall>a\<in>set xs. \<forall>b\<in>set xs. cmp a b = EQUAL_TO \<longrightarrow> a = b"
    and sym: "\<forall>a\<in>set xs. \<forall>b\<in>set xs. (cmp a b = LESS_THAN) = (cmp b a = GREATER_THAN)"
  shows "sorted_wrt (\<lambda>a b. cmp a b \<noteq> GREATER_THAN) xs \<Longrightarrow>
         sorted_wrt (\<lambda>a b. cmp a b \<noteq> GREATER_THAN) ys \<Longrightarrow> mset xs = mset ys \<Longrightarrow> xs = ys"
  using anti sym
proof (induction xs arbitrary: ys)
  case Nil
  then show ?case by simp
next
  case (Cons x xs)
  obtain y ys' where ys: "ys = y # ys'"
    using Cons.prems(3) by (cases ys) auto
  have sets: "set (x # xs) = set (y # ys')"
    using Cons.prems(3) ys by (metis mset_eq_setD)
  have xy: "x = y"
  proof (rule ccontr)
    assume ne: "x \<noteq> y"
    then have "x \<in> set ys'" "y \<in> set xs" using sets by auto
    then have le: "cmp y x \<noteq> GREATER_THAN" "cmp x y \<noteq> GREATER_THAN"
      using Cons.prems(1,2) ys by auto
    have mem: "x \<in> set (x # xs)" "y \<in> set (x # xs)" using sets by auto
    have "cmp x y \<noteq> LESS_THAN" using Cons.prems(5) mem le(1) by blast
    then have "cmp x y = EQUAL_TO" using le(2) by (cases "cmp x y") simp_all
    then show False using Cons.prems(4) mem ne by blast
  qed
  have "xs = ys'"
  proof (rule Cons.IH)
    show "sorted_wrt (\<lambda>a b. cmp a b \<noteq> GREATER_THAN) xs" using Cons.prems(1) by simp
    show "sorted_wrt (\<lambda>a b. cmp a b \<noteq> GREATER_THAN) ys'" using Cons.prems(2) ys by simp
    show "mset xs = mset ys'" using Cons.prems(3) ys xy by simp
    show "\<forall>a\<in>set xs. \<forall>b\<in>set xs. cmp a b = EQUAL_TO \<longrightarrow> a = b"
      using Cons.prems(4) by simp
    show "\<forall>a\<in>set xs. \<forall>b\<in>set xs. (cmp a b = LESS_THAN) = (cmp b a = GREATER_THAN)"
      using Cons.prems(5) by simp
  qed
  then show ?case using xy ys by simp
qed

lemma node_comparator_order:
  "None \<notin> S \<Longrightarrow> comparator_total_order_on S (\<lambda>l r. node_comparator l r arg)"
  unfolding comparator_total_order_on_def
proof (intro conjI ballI impI)
  show "comparator_total_preorder_on S (\<lambda>l r. node_comparator l r arg)"
    by (rule node_comparator_preorder)
next
  fix a b assume "None \<notin> S" "a \<in> S" "b \<in> S" "node_comparator a b arg = EQUAL_TO"
  then show "a = b"
    by (cases a; cases b) (auto simp: node_comparator_def Let_def split: if_splits)
qed

lemma insert_then_pop_until_empty:
  assumes tot: "comparator_total_preorder_on S cmp" and nn: "None \<notin> S"
    and zs: "set zs \<subseteq> S"
  shows "\<exists>hp rs. insert_all (create_empty_heap cmp) zs = Inr hp \<and>
           pop_until_empty hp = Some rs \<and>
           sorted_wrt (\<lambda>a b. cmp a b \<noteq> GREATER_THAN) rs \<and> mset rs = mset zs"
proof -
  obtain hp where h: "insert_all (create_empty_heap cmp) zs = Inr hp \<and>
      heap_inv S cmp hp \<and>
      heap_contents hp = heap_contents (create_empty_heap cmp) + mset zs"
    using insert_all_heap_inv [OF total_preorder_heap_order [OF tot] heap_inv_create zs] ..
  then have h1: "insert_all (create_empty_heap cmp) zs = Inr hp"
    and h2: "heap_inv S cmp hp" and h3: "heap_contents hp = mset zs"
    by (simp_all add: create_empty_heap_contents)
  obtain rs where r: "pop_until_empty hp = Some rs \<and> mset rs = heap_contents hp \<and>
      sorted_wrt (\<lambda>a b. cmp a b \<noteq> GREATER_THAN) rs"
    using pop_until_empty_sorted [OF tot nn h2 refl] ..
  show ?thesis
    using h1 h3 r by (intro exI [of _ hp] exI [of _ rs]) simp
qed

subsection \<open>The flags with both children present\<close>


subsection \<open>The event queue\<close>

lemma create_generic_event_queue_heap:
  "heap (create_generic_event_queue time_cmp third_arg)
   = create_empty_heap (\<lambda>lhs rhs. event_comparator lhs rhs third_arg)"
  by (simp add: create_generic_event_queue_def)







lemma event_queue_dequeue_event:
  assumes "binary_heap_min (heap queue) = Some event"
  shows "\<exists>queue'. event_queue_dequeue queue = Inr ((data event, time event), queue') \<and>
                 event_queue_size queue' = event_queue_size queue - 1"
proof -
  let ?heap1 = "(heap queue)\<lparr>elems := pop_min_loop (comparator (heap queue))
                   (size_h (heap queue) - 1) (pop_array (heap queue)) 0,
                 size_h := size_h (heap queue) - 1\<rparr>"
  have p: "binary_heap_pop_min (heap queue) = (Some event, ?heap1)"
    using binary_heap_pop_min_some [OF assms] .
  have "event_queue_dequeue queue = Inr ((data event, time event), queue\<lparr>heap := ?heap1\<rparr>)"
    using p by (simp add: event_queue_dequeue_def)
  moreover have "event_queue_size (queue\<lparr>heap := ?heap1\<rparr>) = event_queue_size queue - 1"
    by (simp add: event_queue_size_def binary_heap_size_def)
  ultimately show ?thesis by blast
qed

lemma create_generic_event_queue_empty:
  "heap_shape (heap (create_generic_event_queue time_cmp third_arg))"
  "size_h (heap (create_generic_event_queue time_cmp third_arg)) = 0"
  by (simp_all add: create_generic_event_queue_heap create_empty_heap_shape)
     (simp add: create_empty_heap_def)

lemma event_queue_enqueue_on_empty:
  assumes shape: "heap_shape (heap queue)" and empty: "size_h (heap queue) = 0"
    and t: "time_ptr \<noteq> None"
  shows "\<exists>queue'. event_queue_enqueue queue elem time_ptr = Inr queue' \<and>
           heap_shape (heap queue') \<and> event_queue_size queue' = 1 \<and>
           binary_heap_min (heap queue') = Some \<lparr>data = elem, time = time_ptr\<rparr>"
proof -
  let ?ev = "\<lparr>data = elem, time = time_ptr\<rparr>"
  obtain heap1 where h: "binary_heap_insert (heap queue) (Some ?ev) = Inr heap1"
    "heap_shape heap1" "size_h heap1 = size_h (heap queue) + 1"
    "heap_contents heap1 = add_mset (Some ?ev) (heap_contents (heap queue))"
    using binary_heap_insert_shape [OF shape, of "Some ?ev"] by blast
  have c: "heap_contents heap1 = {#Some ?ev#}"
    using h(4) heap_contents_empty [OF empty] by simp
  have s: "size_h heap1 = 1" using h(3) empty by simp
  have "elems heap1 ! 0 \<in># heap_contents heap1"
    using root_in_contents [OF h(2)] s by simp
  then have "elems heap1 ! 0 = Some ?ev" using c by simp
  then have m: "binary_heap_min heap1 = Some ?ev" using s by (simp add: binary_heap_min_def)
  have "event_queue_enqueue queue elem time_ptr = Inr (queue\<lparr>heap := heap1\<rparr>)"
    using h(1) t by (simp add: event_queue_enqueue_def)
  then show ?thesis
    using h(2) s m
    by (intro exI [of _ "queue\<lparr>heap := heap1\<rparr>"])
       (simp add: event_queue_size_def binary_heap_size_def)
qed

subsection \<open>The comparison of \<^verbatim>\<open>double\<close> times, and the flags of one sift-down step\<close>

lemma double_less_asym: "double_less x y \<Longrightarrow> \<not> double_less y x"
  by (cases x; cases y) simp_all

lemma double_not_less_trans:
  "double_less d b \<Longrightarrow> \<not> double_less b a \<Longrightarrow> \<not> double_less c b \<Longrightarrow> \<not> double_less c a"
  by (cases a; cases b; cases c; cases d) simp_all

lemma double_time_comparator_results:
  "double_time_comparator a b arg = LESS_THAN \<longleftrightarrow>
     double_less (time_double (the a)) (time_double (the b))"
  "double_time_comparator a b arg = GREATER_THAN \<longleftrightarrow>
     double_less (time_double (the b)) (time_double (the a))"
  using double_less_asym [of "time_double (the a)" "time_double (the b)"]
  by (auto simp: double_time_comparator_def double_greater_def Let_def)

lemma double_time_comparator_heap_order:
  "comparator_heap_order_on S (\<lambda>a b. double_time_comparator a b arg)"
  unfolding comparator_heap_order_on_def double_time_comparator_results
  using double_not_less_trans by blast


subsection \<open>Pops on heaps of handles that are not \<^verbatim>\<open>NULL\<close>\<close>

lemma run_calls_nonnull:
  "heap_shape hp \<Longrightarrow> None \<notin># heap_contents hp \<Longrightarrow> None \<notin> set (inserted calls) \<Longrightarrow>
   \<exists>rs heap'. run_calls hp calls = Inr (rs, heap') \<and> heap_shape heap' \<and>
      None \<notin># heap_contents heap'"
proof (induction hp calls rule: run_calls.induct)
  case (1 hp)
  then show ?case by simp
next
  case (2 hp elem calls)
  obtain h where h: "binary_heap_insert hp elem = Inr h" "heap_shape h"
    "heap_contents h = add_mset elem (heap_contents hp)"
    using binary_heap_insert_shape [OF "2.prems"(1), of elem] by blast
  have "None \<notin># heap_contents h" using h(3) "2.prems"(2,3) by auto
  then show ?case
    using "2.IH" [OF h(1) h(2)] h(1) "2.prems"(3) by simp
next
  case (3 hp calls)
  obtain r h where p: "binary_heap_pop_min hp = (r, h)" by (cases "binary_heap_pop_min hp")
  have "heap_shape h \<and> None \<notin># heap_contents h"
  proof (cases "binary_heap_min hp")
    case None
    then have "h = hp" using p binary_heap_pop_min_null by fastforce
    then show ?thesis using "3.prems" by simp
  next
    case (Some x)
    have "heap_shape h" "heap_contents hp = add_mset r (heap_contents h)"
      using binary_heap_pop_min_facts [OF "3.prems"(1) Some p] by simp_all
    then show ?thesis using "3.prems"(2) by auto
  qed
  then obtain rs heap' where "run_calls h calls = Inr (rs, heap')" "heap_shape heap'"
    "None \<notin># heap_contents heap'"
    using "3.IH" [OF p [symmetric]] "3.prems"(3) by auto
  then show ?case using p by simp
qed

lemma pop_on_nonempty:
  assumes shape: "heap_shape hp" and nn: "None \<notin># heap_contents hp"
    and pos: "0 < binary_heap_size hp"
  shows "\<exists>x heap'. binary_heap_min hp = Some x \<and> binary_heap_pop_min hp = (Some x, heap') \<and>
           binary_heap_size heap' = binary_heap_size hp - 1"
proof -
  obtain x where m: "binary_heap_min hp = Some x"
    using binary_heap_min_nonnull [OF shape _ nn] pos by (auto simp: binary_heap_size_def)
  obtain r h where p: "binary_heap_pop_min hp = (r, h)" by (cases "binary_heap_pop_min hp")
  have "r = Some x" "size_h h = size_h hp - 1"
    using binary_heap_pop_min_facts [OF shape m p] by simp_all
  then show ?thesis using m p by (simp add: binary_heap_size_def)
qed

lemma inserts_then_pops:
  assumes nn: "None \<notin> set xs" and m: "m \<le> length xs"
  shows "\<exists>hp1 rs hp2.
           insert_all (create_empty_heap cmp) xs = Inr hp1 \<and> pop_times m hp1 = (rs, hp2) \<and>
           length rs = m \<and> None \<notin> set rs \<and> binary_heap_size hp2 = length xs - m"
proof -
  obtain hp1 where h: "insert_all (create_empty_heap cmp) xs = Inr hp1" "heap_shape hp1"
    "heap_contents hp1 = mset xs" "size_h hp1 = length xs"
  proof -
    have z: "size_h (create_empty_heap cmp) = 0" by (simp add: create_empty_heap_def)
    obtain h1 where "insert_all (create_empty_heap cmp) xs = Inr h1" "heap_shape h1"
      "heap_contents h1 = heap_contents (create_empty_heap cmp) + mset xs"
      "size_h h1 = size_h (create_empty_heap cmp) + length xs"
      using insert_all_contents [OF create_empty_heap_shape, of cmp xs] by blast
    then show ?thesis
      using that [of h1] z by (simp add: create_empty_heap_contents)
  qed
  have nn1: "None \<notin># heap_contents hp1" using h(3) nn by simp
  obtain rs hp2 where p: "pop_times m hp1 = (rs, hp2)"
    "heap_contents hp1 = mset rs + heap_contents hp2" "size_h hp2 = size_h hp1 - m"
    "length rs = m"
    using pop_times_contents [OF h(2) nn1, of m] m h(4) by auto
  have "set rs \<subseteq> set xs"
    using p(2) h(3) by (metis mset_subset_eq_add_left set_mset_mono set_mset_mset)
  then have "None \<notin> set rs" using nn by auto
  then show ?thesis
    using h(1) p h(4) by (simp add: binary_heap_size_def)
qed

section \<open>The repository's tests, replayed on the model\<close>

text \<open>
  \<^verbatim>\<open>heap_insert_1\<close>, \<^verbatim>\<open>heap_insert_2\<close> and \<^verbatim>\<open>heap_pop_1\<close> of
  \<^verbatim>\<open>heap_test.c\<close>: the model returns what the tests assert.
\<close>

lemma test_heap_insert_1:
  "peeks_after_inserts (create_empty_heap (\<lambda>l r. node_comparator l r None))
     [make_node 3, make_node 1, make_node 2]
   = [make_node 3, make_node 1, make_node 1]"
  by code_simp

lemma test_heap_insert_2:
  "peeks_after_inserts (create_empty_heap (\<lambda>l r. node_comparator l r None))
     [make_node 5, make_node 4, make_node 3, make_node 2, make_node 1]
   = [make_node 5, make_node 4, make_node 3, make_node 2, make_node 1]"
  by code_simp

lemma test_heap_pop_1:
  "(case run_calls (create_empty_heap (\<lambda>l r. node_comparator l r None))
           [Call_insert (make_node 3), Call_pop_min] of
      Inl e \<Rightarrow> None
    | Inr (rs, hp) \<Rightarrow> Some (rs, binary_heap_size hp, binary_heap_min hp))
   = Some ([make_node 3], 0, None)"
  by code_simp

section \<open>The claims\<close>



text \<open>
  C3. Insert the elements of any finite sequence of non-\<^verbatim>\<open>NULL\<close> handles into
  a fresh heap whose comparator is a total preorder on them, then pop until
  the heap is empty: the loop ends, the popped sequence is a permutation of the
  inserted one and is in non-decreasing comparator order. When the comparator
  is a total order (only identical handles compare \<^verbatim>\<open>EQUAL_TO\<close>), every
  other insertion order of the same multiset gives the same popped sequence.
\<close>

theorem pops_sorted_whatever_the_insertion_order:
  assumes "comparator_total_preorder_on (set xs) cmp" and "None \<notin> set xs"
  shows "\<exists>hp rs.
           insert_all (create_empty_heap cmp) xs = Inr hp \<and>
           pop_until_empty hp = Some rs \<and>
           sorted_wrt (\<lambda>a b. cmp a b \<noteq> GREATER_THAN) rs \<and>
           mset rs = mset xs \<and>
           (comparator_total_order_on (set xs) cmp \<longrightarrow>
              (\<forall>ys. mset ys = mset xs \<longrightarrow>
                 (\<exists>heap2. insert_all (create_empty_heap cmp) ys = Inr heap2 \<and>
                           pop_until_empty heap2 = Some rs)))"
proof -
  obtain hp where "\<exists>rs. insert_all (create_empty_heap cmp) xs = Inr hp \<and>
      pop_until_empty hp = Some rs \<and>
      sorted_wrt (\<lambda>a b. cmp a b \<noteq> GREATER_THAN) rs \<and> mset rs = mset xs"
    using insert_then_pop_until_empty [OF assms subset_refl] ..
  then obtain rs where r: "insert_all (create_empty_heap cmp) xs = Inr hp \<and>
      pop_until_empty hp = Some rs \<and>
      sorted_wrt (\<lambda>a b. cmp a b \<noteq> GREATER_THAN) rs \<and> mset rs = mset xs" ..
  note r1 = r [THEN conjunct1] and r2' = r [THEN conjunct2, THEN conjunct1]
    and r3 = r [THEN conjunct2, THEN conjunct2, THEN conjunct1]
    and r4 = r [THEN conjunct2, THEN conjunct2, THEN conjunct2]
  have srs: "set rs = set xs" using r4 by (rule mset_eq_setD)
  have perm: "\<exists>heap2. insert_all (create_empty_heap cmp) ys = Inr heap2 \<and>
                 pop_until_empty heap2 = Some rs"
    if ord: "comparator_total_order_on (set xs) cmp" and ys: "mset ys = mset xs" for ys
  proof -
    have sub: "set ys \<subseteq> set xs" using mset_eq_setD [OF ys] by simp
    obtain heap2 where "\<exists>rs2. insert_all (create_empty_heap cmp) ys = Inr heap2 \<and>
        pop_until_empty heap2 = Some rs2 \<and>
        sorted_wrt (\<lambda>a b. cmp a b \<noteq> GREATER_THAN) rs2 \<and> mset rs2 = mset ys"
      using insert_then_pop_until_empty [OF assms sub] ..
    then obtain rs2 where r2: "insert_all (create_empty_heap cmp) ys = Inr heap2 \<and>
        pop_until_empty heap2 = Some rs2 \<and>
        sorted_wrt (\<lambda>a b. cmp a b \<noteq> GREATER_THAN) rs2 \<and> mset rs2 = mset ys" ..
    have "rs = rs2"
    proof (rule sorted_wrt_unique [of rs cmp rs2])
      show "\<forall>a\<in>set rs. \<forall>b\<in>set rs. cmp a b = EQUAL_TO \<longrightarrow> a = b"
        using ord unfolding comparator_total_order_on_def srs by blast
      show "\<forall>a\<in>set rs. \<forall>b\<in>set rs. (cmp a b = LESS_THAN) = (cmp b a = GREATER_THAN)"
        using assms(1) unfolding comparator_total_preorder_on_def srs by blast
      show "sorted_wrt (\<lambda>a b. cmp a b \<noteq> GREATER_THAN) rs" by (rule r3)
      show "sorted_wrt (\<lambda>a b. cmp a b \<noteq> GREATER_THAN) rs2"
        by (rule r2 [THEN conjunct2, THEN conjunct2, THEN conjunct1])
      show "mset rs = mset rs2"
        using r4 r2 [THEN conjunct2, THEN conjunct2, THEN conjunct2] ys by (simp only:)
    qed
    then show ?thesis
      using r2 [THEN conjunct1] r2 [THEN conjunct2, THEN conjunct1]
      by (intro exI [of _ heap2] conjI) (simp_all only:)
  qed
  show ?thesis
  proof (intro exI [of _ hp] exI [of _ rs] conjI)
    show "insert_all (create_empty_heap cmp) xs = Inr hp" by (rule r1)
    show "pop_until_empty hp = Some rs" by (rule r2')
    show "sorted_wrt (\<lambda>a b. cmp a b \<noteq> GREATER_THAN) rs" by (rule r3)
    show "mset rs = mset xs" by (rule r4)
    show "comparator_total_order_on (set xs) cmp \<longrightarrow>
          (\<forall>ys. mset ys = mset xs \<longrightarrow>
             (\<exists>heap2. insert_all (create_empty_heap cmp) ys = Inr heap2 \<and>
                       pop_until_empty heap2 = Some rs))"
    proof (intro impI allI)
      fix ys assume "comparator_total_order_on (set xs) cmp" and "mset ys = mset xs"
      then show "\<exists>heap2. insert_all (create_empty_heap cmp) ys = Inr heap2 \<and>
                 pop_until_empty heap2 = Some rs"
        by (rule perm)
    qed
  qed
qed

theorem pops_sorted_whatever_the_insertion_order_witness:
  "comparator_total_preorder_on (set [make_node 3, make_node 1, make_node 2])
     (\<lambda>l r. node_comparator l r None) \<and>
   None \<notin> set [make_node 3, make_node 1, make_node 2] \<and>
   comparator_total_order_on (set [make_node 3, make_node 1, make_node 2])
     (\<lambda>l r. node_comparator l r None) \<and>
   mset [make_node 2, make_node 3, make_node 1] = mset [make_node 3, make_node 1, make_node 2] \<and>
   (\<exists>hp rs heap2.
      insert_all (create_empty_heap (\<lambda>l r. node_comparator l r None))
        [make_node 3, make_node 1, make_node 2] = Inr hp \<and>
      pop_until_empty hp = Some rs \<and>
      sorted_wrt (\<lambda>a b. node_comparator a b None \<noteq> GREATER_THAN) rs \<and>
      mset rs = mset [make_node 3, make_node 1, make_node 2] \<and>
      insert_all (create_empty_heap (\<lambda>l r. node_comparator l r None))
        [make_node 2, make_node 3, make_node 1] = Inr heap2 \<and>
      pop_until_empty heap2 = Some rs)"
proof -
  let ?xs = "[make_node 3, make_node 1, make_node 2]"
  let ?ys = "[make_node 2, make_node 3, make_node 1]"
  let ?cmp = "\<lambda>l r. node_comparator l r None"
  have nn: "None \<notin> set ?xs" by (simp add: make_node_def)
  have pre: "comparator_total_preorder_on (set ?xs) ?cmp" by (rule node_comparator_preorder)
  have ord: "comparator_total_order_on (set ?xs) ?cmp" by (rule node_comparator_order [OF nn])
  have perm: "mset ?ys = mset ?xs" by (simp add: make_node_def)
  obtain hp rs where r: "insert_all (create_empty_heap ?cmp) ?xs = Inr hp"
    "pop_until_empty hp = Some rs" "sorted_wrt (\<lambda>a b. ?cmp a b \<noteq> GREATER_THAN) rs"
    "mset rs = mset ?xs"
    and all: "comparator_total_order_on (set ?xs) ?cmp \<longrightarrow>
              (\<forall>ys. mset ys = mset ?xs \<longrightarrow>
                 (\<exists>heap2. insert_all (create_empty_heap ?cmp) ys = Inr heap2 \<and>
                           pop_until_empty heap2 = Some rs))"
    using pops_sorted_whatever_the_insertion_order [OF pre nn] by (elim exE conjE)
  obtain heap2 where r2: "insert_all (create_empty_heap ?cmp) ?ys = Inr heap2"
    "pop_until_empty heap2 = Some rs"
    using all [rule_format, OF ord perm] by (elim exE conjE)
  have "\<exists>hp rs heap2.
      insert_all (create_empty_heap ?cmp) ?xs = Inr hp \<and>
      pop_until_empty hp = Some rs \<and>
      sorted_wrt (\<lambda>a b. node_comparator a b None \<noteq> GREATER_THAN) rs \<and>
      mset rs = mset ?xs \<and>
      insert_all (create_empty_heap ?cmp) ?ys = Inr heap2 \<and>
      pop_until_empty heap2 = Some rs"
    using r r2 by (intro exI [of _ hp] exI [of _ rs] exI [of _ heap2]) simp
  then show ?thesis
    using nn pre ord perm by (intro conjI)
qed

text \<open>
  C4. Insert any \<open>k\<close> non-\<^verbatim>\<open>NULL\<close> handles into a fresh heap (whatever the
  comparator) and call \<^verbatim>\<open>binary_heap_pop_min\<close> exactly \<open>k\<close> times: the \<open>k\<close>
  returned handles are, as a multiset, exactly the inserted ones, and the hp
  is empty afterwards.
\<close>

theorem round_trip_multiset:
  assumes "None \<notin> set xs"
  shows "\<exists>hp rs heap'.
           insert_all (create_empty_heap cmp) xs = Inr hp \<and>
           pop_times (length xs) hp = (rs, heap') \<and>
           mset rs = mset xs \<and> binary_heap_size heap' = 0"
proof -
  obtain hp where h: "insert_all (create_empty_heap cmp) xs = Inr hp" "heap_shape hp"
    "heap_contents hp = heap_contents (create_empty_heap cmp) + mset xs"
    "size_h hp = size_h (create_empty_heap cmp) + length xs"
    using insert_all_contents [OF create_empty_heap_shape, of cmp xs] by blast
  have c: "heap_contents hp = mset xs" and s: "size_h hp = length xs"
    using h(3,4) by (simp_all add: create_empty_heap_contents) (simp add: create_empty_heap_def)
  have nn: "None \<notin># heap_contents hp" using assms c by simp
  obtain rs heap' where p: "pop_times (length xs) hp = (rs, heap')"
    "heap_contents hp = mset rs + heap_contents heap'" "size_h heap' = size_h hp - length xs"
    using pop_times_contents [OF h(2) nn, of "length xs"] s by auto
  have "size_h heap' = 0" using p(3) s by simp
  then have "mset rs = mset xs" using p(2) c heap_contents_empty [of heap'] by simp
  then show ?thesis using h(1) p(1) \<open>size_h heap' = 0\<close> by (simp add: binary_heap_size_def)
qed

theorem round_trip_multiset_witness:
  "None \<notin> set [make_node 5, make_node 4, make_node 5, make_node 1] \<and>
   (\<exists>hp rs heap'.
      insert_all (create_empty_heap (\<lambda>l r. node_comparator l r None))
        [make_node 5, make_node 4, make_node 5, make_node 1] = Inr hp \<and>
      pop_times (length [make_node 5, make_node 4, make_node 5, make_node 1]) hp = (rs, heap') \<and>
      mset rs = mset [make_node 5, make_node 4, make_node 5, make_node 1] \<and>
      binary_heap_size heap' = 0)"
proof -
  have nn: "None \<notin> set [make_node 5, make_node 4, make_node 5, make_node 1]"
    by (simp add: make_node_def)
  show ?thesis
    using round_trip_multiset [OF nn, of "\<lambda>l r. node_comparator l r None"] nn by blast
qed

text \<open>
  C5. Run any sequence of calls from the empty heap: the run does not fail, the
  number \<open>m\<close> of pops that returned a handle (not \<^verbatim>\<open>NULL\<close>) is at most the
  number \<open>n\<close> of inserts, and \<^verbatim>\<open>binary_heap_size\<close> is \<open>n - m\<close>. The pops that
  return a handle are the pops on a heap that is not empty: after \<open>n\<close> inserts
  of handles (not \<^verbatim>\<open>NULL\<close>), each of \<open>m \<le> n\<close> pops returns a handle and the
  size is then \<open>n - m\<close>; and after any sequence of calls that inserts handles,
  a pop on a heap of size above 0 returns the handle \<^verbatim>\<open>binary_heap_min\<close>
  reports and leaves a heap whose size is one less. On any heap of size 0,
  \<^verbatim>\<open>binary_heap_pop_min\<close> and \<^verbatim>\<open>binary_heap_min\<close> return \<^verbatim>\<open>NULL\<close> and the heap
  (size and array included) is what it was.
\<close>

theorem size_accounting_and_empty_pop:
  "(\<exists>rs hp.
      run_calls (create_empty_heap cmp) calls = Inr (rs, hp) \<and>
      length (filter (\<lambda>r. r \<noteq> None) rs) \<le> length (inserted calls) \<and>
      binary_heap_size hp
        = length (inserted calls) - length (filter (\<lambda>r. r \<noteq> None) rs)) \<and>
   (None \<notin> set xs \<and> m \<le> length xs \<longrightarrow>
      (\<exists>hp1 rs hp2.
         insert_all (create_empty_heap cmp) xs = Inr hp1 \<and> pop_times m hp1 = (rs, hp2) \<and>
         length rs = m \<and> None \<notin> set rs \<and> binary_heap_size hp2 = length xs - m)) \<and>
   (None \<notin> set (inserted calls) \<longrightarrow>
      (\<exists>rs hp.
         run_calls (create_empty_heap cmp) calls = Inr (rs, hp) \<and>
         (0 < binary_heap_size hp \<longrightarrow>
            (\<exists>x hp'. binary_heap_min hp = Some x \<and>
                binary_heap_pop_min hp = (Some x, hp') \<and>
                binary_heap_size hp' = binary_heap_size hp - 1)))) \<and>
   (binary_heap_size heap0 = 0 \<longrightarrow>
      binary_heap_pop_min heap0 = (None, heap0) \<and> binary_heap_min heap0 = None)"
proof (intro conjI impI)
  obtain rs hp where r: "run_calls (create_empty_heap cmp) calls = Inr (rs, hp)"
    and s: "size_h hp + length (filter (\<lambda>r. r \<noteq> None) rs)
              = size_h (create_empty_heap cmp) + length (inserted calls)"
    using run_calls_size [OF create_empty_heap_shape, of cmp calls] by blast
  have "size_h (create_empty_heap cmp) = 0" by (simp add: create_empty_heap_def)
  then show "\<exists>rs hp.
      run_calls (create_empty_heap cmp) calls = Inr (rs, hp) \<and>
      length (filter (\<lambda>r. r \<noteq> None) rs) \<le> length (inserted calls) \<and>
      binary_heap_size hp
        = length (inserted calls) - length (filter (\<lambda>r. r \<noteq> None) rs)"
    using r s by (intro exI [of _ rs] exI [of _ hp]) (simp add: binary_heap_size_def)
next
  assume "None \<notin> set xs \<and> m \<le> length xs"
  then show "\<exists>hp1 rs hp2.
         insert_all (create_empty_heap cmp) xs = Inr hp1 \<and> pop_times m hp1 = (rs, hp2) \<and>
         length rs = m \<and> None \<notin> set rs \<and> binary_heap_size hp2 = length xs - m"
    using inserts_then_pops [of xs m cmp] by simp
next
  assume nn: "None \<notin> set (inserted calls)"
  obtain rs hp where r: "run_calls (create_empty_heap cmp) calls = Inr (rs, hp)"
    and inv: "heap_shape hp" "None \<notin># heap_contents hp"
    using run_calls_nonnull [OF create_empty_heap_shape _ nn, of cmp]
    by (auto simp: create_empty_heap_contents)
  have "0 < binary_heap_size hp \<longrightarrow>
            (\<exists>x hp'. binary_heap_min hp = Some x \<and>
                binary_heap_pop_min hp = (Some x, hp') \<and>
                binary_heap_size hp' = binary_heap_size hp - 1)"
    using pop_on_nonempty [OF inv] by simp
  then show "\<exists>rs hp.
         run_calls (create_empty_heap cmp) calls = Inr (rs, hp) \<and>
         (0 < binary_heap_size hp \<longrightarrow>
            (\<exists>x hp'. binary_heap_min hp = Some x \<and>
                binary_heap_pop_min hp = (Some x, hp') \<and>
                binary_heap_size hp' = binary_heap_size hp - 1))"
    using r by (intro exI [of _ rs] exI [of _ hp]) simp
next
  assume "binary_heap_size heap0 = 0"
  then show "binary_heap_pop_min heap0 = (None, heap0)"
    by (simp add: binary_heap_size_def binary_heap_pop_min_def binary_heap_min_def)
next
  assume "binary_heap_size heap0 = 0"
  then show "binary_heap_min heap0 = None"
    by (simp add: binary_heap_size_def binary_heap_min_def)
qed

theorem size_accounting_and_empty_pop_witness:
  "(case run_calls (create_empty_heap (\<lambda>l r. node_comparator l r None))
           [Call_insert (make_node 3), Call_pop_min, Call_pop_min, Call_insert (make_node 1)] of
      Inl e \<Rightarrow> None
    | Inr (rs, hp) \<Rightarrow>
        Some (rs, binary_heap_size hp, fst (binary_heap_pop_min hp),
              binary_heap_size (snd (binary_heap_pop_min hp))))
     = Some ([make_node 3, None], 1, make_node 1, 0) \<and>
   None \<notin> set (inserted [Call_insert (make_node 3), Call_pop_min, Call_pop_min,
                          Call_insert (make_node 1)]) \<and>
   (\<exists>rs hp.
      run_calls (create_empty_heap (\<lambda>l r. node_comparator l r None))
        [Call_insert (make_node 3), Call_pop_min, Call_pop_min, Call_insert (make_node 1)]
        = Inr (rs, hp) \<and>
      0 < binary_heap_size hp \<and>
      (\<exists>x hp'. binary_heap_min hp = Some x \<and> binary_heap_pop_min hp = (Some x, hp') \<and>
          binary_heap_size hp' = binary_heap_size hp - 1)) \<and>
   (case insert_all (create_empty_heap (\<lambda>l r. node_comparator l r None))
           [make_node 3, make_node 1, make_node 2] of
      Inl e \<Rightarrow> None
    | Inr hp1 \<Rightarrow> Some (fst (pop_times 2 hp1), binary_heap_size (snd (pop_times 2 hp1))))
     = Some ([make_node 1, make_node 2], 1) \<and>
   None \<notin> set [make_node 3, make_node 1, make_node 2] \<and>
   (2::nat) \<le> length [make_node 3, make_node 1, make_node 2] \<and>
   (\<exists>hp1 rs hp2.
      insert_all (create_empty_heap (\<lambda>l r. node_comparator l r None))
        [make_node 3, make_node 1, make_node 2] = Inr hp1 \<and>
      pop_times 2 hp1 = (rs, hp2) \<and> length rs = 2 \<and> None \<notin> set rs \<and>
      binary_heap_size hp2 = length [make_node 3, make_node 1, make_node 2] - 2) \<and>
   binary_heap_size (create_empty_heap (\<lambda>l r. node_comparator l r None)) = 0 \<and>
   binary_heap_pop_min (create_empty_heap (\<lambda>l r. node_comparator l r None))
     = (None, create_empty_heap (\<lambda>l r. node_comparator l r None)) \<and>
   binary_heap_min (create_empty_heap (\<lambda>l r. node_comparator l r None)) = None"
proof -
  let ?cmp = "\<lambda>l r. node_comparator l r None"
  let ?calls = "[Call_insert (make_node 3), Call_pop_min, Call_pop_min, Call_insert (make_node 1)]"
  let ?xs = "[make_node 3, make_node 1, make_node 2]"
  note inst = size_accounting_and_empty_pop
    [where cmp = ?cmp and calls = ?calls and xs = ?xs and m = 2
       and ?heap0.0 = "create_empty_heap ?cmp"]
  have run: "(case run_calls (create_empty_heap ?cmp) ?calls of
      Inl e \<Rightarrow> None
    | Inr (rs, hp) \<Rightarrow>
        Some (rs, binary_heap_size hp, fst (binary_heap_pop_min hp),
              binary_heap_size (snd (binary_heap_pop_min hp))))
     = Some ([make_node 3, None], 1, make_node 1, 0)"
    by code_simp
  have ins: "(case insert_all (create_empty_heap ?cmp) ?xs of
      Inl e \<Rightarrow> None
    | Inr hp1 \<Rightarrow> Some (fst (pop_times 2 hp1), binary_heap_size (snd (pop_times 2 hp1))))
     = Some ([make_node 1, make_node 2], 1)"
    by code_simp
  have nn1: "None \<notin> set (inserted ?calls)" by (simp add: make_node_def)
  have nn2: "None \<notin> set ?xs" by (simp add: make_node_def)
  obtain rs where "\<exists>hp. run_calls (create_empty_heap ?cmp) ?calls = Inr (rs, hp) \<and>
         (0 < binary_heap_size hp \<longrightarrow>
            (\<exists>x hp'. binary_heap_min hp = Some x \<and>
                binary_heap_pop_min hp = (Some x, hp') \<and>
                binary_heap_size hp' = binary_heap_size hp - 1))"
    using inst [THEN conjunct2, THEN conjunct2, THEN conjunct1, rule_format, OF nn1] ..
  then obtain hp where rh: "run_calls (create_empty_heap ?cmp) ?calls = Inr (rs, hp) \<and>
         (0 < binary_heap_size hp \<longrightarrow>
            (\<exists>x hp'. binary_heap_min hp = Some x \<and>
                binary_heap_pop_min hp = (Some x, hp') \<and>
                binary_heap_size hp' = binary_heap_size hp - 1))" ..
  note r = rh [THEN conjunct1] and step = rh [THEN conjunct2]
  have pos: "0 < binary_heap_size hp" using run r by simp
  have a: "\<exists>rs hp.
      run_calls (create_empty_heap ?cmp) ?calls = Inr (rs, hp) \<and>
      0 < binary_heap_size hp \<and>
      (\<exists>x hp'. binary_heap_min hp = Some x \<and> binary_heap_pop_min hp = (Some x, hp') \<and>
          binary_heap_size hp' = binary_heap_size hp - 1)"
    using r pos step by blast
  have b: "\<exists>hp1 rs hp2.
      insert_all (create_empty_heap ?cmp) ?xs = Inr hp1 \<and>
      pop_times 2 hp1 = (rs, hp2) \<and> length rs = 2 \<and> None \<notin> set rs \<and>
      binary_heap_size hp2 = length ?xs - 2"
    using inst [THEN conjunct2, THEN conjunct1] nn2 by simp
  have z: "binary_heap_size (create_empty_heap ?cmp) = 0"
    by (simp add: binary_heap_size_def create_empty_heap_def)
  have e: "binary_heap_pop_min (create_empty_heap ?cmp) = (None, create_empty_heap ?cmp)"
      "binary_heap_min (create_empty_heap ?cmp) = None"
    using inst [THEN conjunct2, THEN conjunct2, THEN conjunct2] z by simp_all
  show ?thesis
    using run ins nn1 nn2 a b z e by (intro conjI) simp_all
qed




text \<open>
  C7 at the time value 1.5: \<^verbatim>\<open>event_queue_peek_double_time\<close> returns 1.5, and
  \<^verbatim>\<open>event_queue_dequeue_double_time\<close>, which passes the time through its
  \<^verbatim>\<open>unsigned int time_val\<close>, returns 1.0. With a single event in the queue no
  comparison is made, so this holds whatever \<open>third_arg\<close> is.
\<close>

theorem dequeue_double_time_truncates:
  "\<exists>queue queue'.
     event_queue_enqueue_double_time
       (create_queue_double_time third_arg :: (nat, double_time) event_queue)
       (Some 7) (Finite (3 / 2)) = Inr queue \<and>
     event_queue_peek_double_time queue = Inr (Finite (3 / 2), Some 7) \<and>
     event_queue_dequeue_double_time queue = Inr (Finite 1, Some 7, queue')"
proof -
  let ?q0 = "create_queue_double_time third_arg :: (nat, double_time) event_queue"
  let ?t = "create_double_time (Finite (3 / 2))"
  obtain queue where q: "event_queue_enqueue ?q0 (Some 7) ?t = Inr queue"
    "heap_shape (heap queue)"
    "binary_heap_min (heap queue) = Some \<lparr>data = Some 7, time = ?t\<rparr>"
    using event_queue_enqueue_on_empty [of ?q0 ?t "Some 7"]
      create_generic_event_queue_empty [of double_time_comparator third_arg]
    by (auto simp: create_queue_double_time_def create_double_time_def)
  obtain queue' where d: "event_queue_dequeue queue = Inr ((Some 7, ?t), queue')"
    using event_queue_dequeue_event [OF q(3)] by auto
  have conv: "double_to_unsigned_int (Finite (3 / 2)) = Some 1" by simp
  have "event_queue_peek_double_time queue = Inr (Finite (3 / 2), Some 7)"
    using q(3) by (simp add: event_queue_peek_double_time_def create_double_time_def)
  moreover have "event_queue_dequeue_double_time queue = Inr (Finite 1, Some 7, queue')"
    using d conv
    by (simp add: event_queue_dequeue_double_time_def create_double_time_def
        unsigned_int_to_double_def)
  ultimately show ?thesis
    using q(1) by (intro exI [of _ queue] exI [of _ queue'])
      (simp add: event_queue_enqueue_double_time_def)
qed






end
